theory Spec2Isabelle
  imports Main
begin

section \<open>Characters and strings\<close>

text \<open>
  A document is a \<open>string\<close>, one \<open>char\<close> per code point. Isabelle's \<open>char\<close> has
  eight bits, read here as the code points U+0000 to U+00FF, so the accented letters of
  the parser's tables (U+00F3, U+00ED) are single characters, as they are in a Python
  \<open>str\<close>, and \<open>length\<close> counts what \<open>len\<close> counts. Documents holding code points
  beyond U+00FF are outside this model. Offsets are natural numbers: the parser never
  produces a negative one.
\<close>

definition bsl :: char where
  "bsl = CHR 0x5C"

definition lower_char :: "char \<Rightarrow> char" where
  \<comment> \<open>\<open>str.lower\<close> on one code point below U+0100\<close>
  "lower_char c = (let n = (of_char c :: nat) in
     if (65 \<le> n \<and> n \<le> 90) \<or> (192 \<le> n \<and> n \<le> 222 \<and> n \<noteq> 215)
     then char_of (n + 32) else c)"

definition lower :: "string \<Rightarrow> string" where
  "lower s = map lower_char s"

definition isspace :: "char \<Rightarrow> bool" where
  \<comment> \<open>\<open>str.isspace\<close>, which is also the class \<open>\s\<close> of \<open>re\<close> on a \<open>str\<close> pattern\<close>
  "isspace c = (let n = (of_char c :: nat) in
     (9 \<le> n \<and> n \<le> 13) \<or> (28 \<le> n \<and> n \<le> 32) \<or> n = 133 \<or> n = 160)"

definition lstrip :: "string \<Rightarrow> string" where
  "lstrip s = dropWhile isspace s"

definition rstrip :: "string \<Rightarrow> string" where
  "rstrip s = rev (dropWhile isspace (rev s))"

definition strip :: "string \<Rightarrow> string" where
  "strip s = rstrip (lstrip s)"

definition rstrip_star :: "string \<Rightarrow> string" where
  \<comment> \<open>\<open>s.rstrip('*')\<close>\<close>
  "rstrip_star s = rev (dropWhile (\<lambda>c. c = CHR ''*'') (rev s))"

definition slice :: "string \<Rightarrow> nat \<Rightarrow> nat \<Rightarrow> string" where
  \<comment> \<open>\<open>text[a:b]\<close> for offsets that are not negative\<close>
  "slice text a b = take (b - a) (drop a text)"

fun starts_with :: "string \<Rightarrow> string \<Rightarrow> bool" where
  "starts_with [] s = True"
| "starts_with (c # w) [] = False"
| "starts_with (c # w) (d # s) = (c = d \<and> starts_with w s)"

fun contains :: "string \<Rightarrow> string \<Rightarrow> bool" where
  \<comment> \<open>\<open>w in s\<close> on strings\<close>
  "contains w [] = (w = [])"
| "contains w (c # s) = (starts_with w (c # s) \<or> contains w s)"

fun split_on :: "char \<Rightarrow> string \<Rightarrow> string list" where
  \<comment> \<open>\<open>s.split(c)\<close>: always at least one piece\<close>
  "split_on c [] = [[]]"
| "split_on c (d # s) =
     (if d = c then [] # split_on c s
      else (case split_on c s of [] \<Rightarrow> [[d]] | l # ls \<Rightarrow> (d # l) # ls))"

fun join :: "string \<Rightarrow> string list \<Rightarrow> string" where
  "join sep [] = []"
| "join sep [l] = l"
| "join sep (l # ls) = l @ sep @ join sep ls"

datatype py_error = AttributeError

section \<open>The regular expressions of the parser\<close>

text \<open>
  The parser is written with Python's \<open>re\<close>. The patterns it compiles use literal
  characters, three character sets, the greedy operators \<open>*\<close>, \<open>+\<close> and \<open>?\<close>, ordered
  alternation and numbered groups. \<open>rx\<close> is that fragment, and \<open>rx_m\<close> is the
  backtracking matcher: it tries, in the order \<open>re\<close> does, every way the expression can
  match a prefix of the input and hands each to the continuation, which stands for the rest
  of the pattern; the first way the continuation accepts is the match. Under the flag
  \<open>IGNORECASE\<close> (the argument \<open>ic\<close>) a literal is compared after lower-casing; the
  sets of the source hold no letters.
\<close>

datatype cset = NotChar char | Whitespace | SpaceTab | Newline

fun in_cset :: "cset \<Rightarrow> char \<Rightarrow> bool" where
  "in_cset (NotChar c) d = (d \<noteq> c)"
| "in_cset Whitespace d = isspace d"
| "in_cset SpaceTab d = (d = CHR '' '' \<or> d = CHR 0x09)"
| "in_cset Newline d = (d = CHR 0x0A)"

datatype rx =
    Eps
  | Chr char
  | Many cset
  | Many1 cset
  | Opt rx
  | Or rx rx
  | Then rx rx
  | Grp nat rx

type_synonym groups = "(nat \<times> string) list"

definition chr_eq :: "bool \<Rightarrow> char \<Rightarrow> char \<Rightarrow> bool" where
  "chr_eq ic c d = (if ic then lower_char c = lower_char d else c = d)"

primrec backoff :: "nat \<Rightarrow> (string \<Rightarrow> 'a option) \<Rightarrow> string \<Rightarrow> nat \<Rightarrow> 'a option" where
  \<comment> \<open>a greedy repetition gives back one character at a time, down to \<open>lo\<close>\<close>
  "backoff lo k s 0 = (if lo = 0 then k s else None)"
| "backoff lo k s (Suc n) =
     (if Suc n < lo then None
      else (case k (drop (Suc n) s) of Some x \<Rightarrow> Some x | None \<Rightarrow> backoff lo k s n))"

primrec rx_m :: "rx \<Rightarrow> bool \<Rightarrow> groups \<Rightarrow> string \<Rightarrow> (groups \<Rightarrow> string \<Rightarrow> 'a option) \<Rightarrow> 'a option" where
  "rx_m Eps = (\<lambda>ic g s k. k g s)"
| "rx_m (Chr c) = (\<lambda>ic g s k.
     (case s of [] \<Rightarrow> None | d # t \<Rightarrow> if chr_eq ic c d then k g t else None))"
| "rx_m (Many cs) = (\<lambda>ic g s k. backoff 0 (k g) s (length (takeWhile (in_cset cs) s)))"
| "rx_m (Many1 cs) = (\<lambda>ic g s k. backoff 1 (k g) s (length (takeWhile (in_cset cs) s)))"
| "rx_m (Opt r) = (\<lambda>ic g s k.
     (case rx_m r ic g s k of Some x \<Rightarrow> Some x | None \<Rightarrow> k g s))"
| "rx_m (Or r1 r2) = (\<lambda>ic g s k.
     (case rx_m r1 ic g s k of Some x \<Rightarrow> Some x | None \<Rightarrow> rx_m r2 ic g s k))"
| "rx_m (Then r1 r2) = (\<lambda>ic g s k. rx_m r1 ic g s (\<lambda>g' s'. rx_m r2 ic g' s' k))"
| "rx_m (Grp n r) = (\<lambda>ic g s k.
     rx_m r ic g s (\<lambda>g' s'. k ((n, take (length s - length s') s) # g') s'))"

fun lit :: "string \<Rightarrow> rx" where
  \<comment> \<open>\<open>re.escape(w)\<close>, and a run of literal characters of a pattern\<close>
  "lit [] = Eps"
| "lit (c # w) = Then (Chr c) (lit w)"

fun alts :: "rx list \<Rightarrow> rx" where
  \<comment> \<open>\<open>'|'.join(...)\<close>\<close>
  "alts [] = Eps"
| "alts [r] = r"
| "alts (r # rs) = Or r (alts rs)"

fun seq :: "rx list \<Rightarrow> rx" where
  "seq [] = Eps"
| "seq (r # rs) = Then r (seq rs)"

record rmatch =
  m_start :: nat
  m_end :: nat
  m_groups :: groups

definition group :: "rmatch \<Rightarrow> nat \<Rightarrow> string option" where
  \<comment> \<open>\<open>match.group(n)\<close>: \<open>None\<close> for a group that took no part in the match\<close>
  "group m n = map_of (m_groups m) n"

definition rx_first :: "bool \<Rightarrow> rx \<Rightarrow> string \<Rightarrow> (groups \<times> nat) option" where
  \<comment> \<open>the match that starts at the head of \<open>s\<close>: its groups and its length\<close>
  "rx_first ic r s = rx_m r ic [] s (\<lambda>g s'. Some (g, length s - length s'))"

fun rx_search_from :: "bool \<Rightarrow> rx \<Rightarrow> string \<Rightarrow> nat \<Rightarrow> rmatch option" where
  \<comment> \<open>\<open>s\<close> is the text from offset \<open>i\<close> on\<close>
  "rx_search_from ic r [] i =
     (case rx_first ic r [] of
        Some (g, n) \<Rightarrow> Some \<lparr>m_start = i, m_end = i + n, m_groups = g\<rparr>
      | None \<Rightarrow> None)"
| "rx_search_from ic r (c # s) i =
     (case rx_first ic r (c # s) of
        Some (g, n) \<Rightarrow> Some \<lparr>m_start = i, m_end = i + n, m_groups = g\<rparr>
      | None \<Rightarrow> rx_search_from ic r s (Suc i))"

definition rx_search :: "bool \<Rightarrow> rx \<Rightarrow> string \<Rightarrow> nat \<Rightarrow> rmatch option" where
  \<comment> \<open>\<open>pattern.search(text, pos)\<close>: the leftmost match at or after \<open>pos\<close>\<close>
  "rx_search ic r text pos =
     (let p = min pos (length text) in rx_search_from ic r (drop p text) p)"

definition rx_match :: "bool \<Rightarrow> rx \<Rightarrow> string \<Rightarrow> rmatch option" where
  \<comment> \<open>\<open>pattern.match(text)\<close>: a match at offset 0 only\<close>
  "rx_match ic r text =
     (case rx_first ic r text of
        Some (g, n) \<Rightarrow> Some \<lparr>m_start = 0, m_end = n, m_groups = g\<rparr>
      | None \<Rightarrow> None)"

text \<open>
  \<open>finditer\<close> and \<open>sub\<close> walk the text once, left to right, over matches that do not
  overlap. Every pattern they are used with here consumes at least one character, and
  the two functions are written for such patterns: after a match of length \<open>n\<close> the
  next \<open>n - 1\<close> characters are passed over.
\<close>

fun rx_finditer_from :: "bool \<Rightarrow> rx \<Rightarrow> nat \<Rightarrow> string \<Rightarrow> nat \<Rightarrow> rmatch list" where
  "rx_finditer_from ic r k [] i = []"
| "rx_finditer_from ic r (Suc k) (c # s) i = rx_finditer_from ic r k s (Suc i)"
| "rx_finditer_from ic r 0 (c # s) i =
     (case rx_first ic r (c # s) of
        None \<Rightarrow> rx_finditer_from ic r 0 s (Suc i)
      | Some (g, n) \<Rightarrow>
          \<lparr>m_start = i, m_end = i + n, m_groups = g\<rparr> # rx_finditer_from ic r (n - 1) s (Suc i))"

definition rx_finditer :: "bool \<Rightarrow> rx \<Rightarrow> string \<Rightarrow> rmatch list" where
  "rx_finditer ic r text = rx_finditer_from ic r 0 text 0"

fun rx_sub_from :: "bool \<Rightarrow> rx \<Rightarrow> (groups \<Rightarrow> string) \<Rightarrow> nat \<Rightarrow> string \<Rightarrow> string" where
  "rx_sub_from ic r repl k [] = []"
| "rx_sub_from ic r repl (Suc k) (c # s) = rx_sub_from ic r repl k s"
| "rx_sub_from ic r repl 0 (c # s) =
     (case rx_first ic r (c # s) of
        None \<Rightarrow> c # rx_sub_from ic r repl 0 s
      | Some (g, n) \<Rightarrow> repl g @ rx_sub_from ic r repl (n - 1) s)"

definition rx_sub :: "bool \<Rightarrow> rx \<Rightarrow> (groups \<Rightarrow> string) \<Rightarrow> string \<Rightarrow> string" where
  \<comment> \<open>\<open>re.sub(pattern, repl, text)\<close>\<close>
  "rx_sub ic r repl text = rx_sub_from ic r repl 0 text"

section \<open>The parser\<close>

definition MATH_ENVIRONMENTS :: "string list" where
  "MATH_ENVIRONMENTS = [''definition'', ''theorem'', ''lemma'', ''proposition'', ''corollary'']"

definition ENVIRONMENT_VARIANTS :: "(string \<times> string) list" where
  \<comment> \<open>the dictionary, as the list of its items (the keys are distinct)\<close>
  "ENVIRONMENT_VARIANTS =
    [(''teorema'', ''theorem''),
     (''definicion'', ''definition''),
     (''definici'' @ [CHR 0xF3] @ ''n'', ''definition''),
     (''lema'', ''lemma''),
     (''proposicion'', ''proposition''),
     (''proposici'' @ [CHR 0xF3] @ ''n'', ''proposition''),
     (''corolario'', ''corollary''),
     (''thm'', ''theorem''),
     (''defn'', ''definition''),
     (''def'', ''definition''),
     (''lem'', ''lemma''),
     (''prop'', ''proposition''),
     (''cor'', ''corollary''),
     (''corol'', ''corollary'')]"

definition proof_variants :: "string list" where
  "proof_variants =
    [''proof'', ''prueba'', ''demostracion'', ''demostraci'' @ [CHR 0xF3] @ ''n'', ''dem'']"

text \<open>
  The state of a \<open>LaTeXParser\<close> is its three compiled patterns, all compiled with
  \<open>re.IGNORECASE\<close>. \<open>all_envs\<close> is a Python set; its members are listed here in the
  order base names, variant keys, custom names. The alternatives are the escaped names,
  tried in that order. Python joins the members in the iteration order of the set, which
  the language does not fix; the order can change a match only when two registered names
  both match at the same opening marker, as a custom name and the same name followed by a
  star would. The theorems below use of the alternation only that it is not empty and that
  group 1 is always set.
\<close>

record parser =
  env_pattern :: rx
  proof_start_pattern :: rx
  proof_end_pattern :: rx

definition all_envs :: "string list \<Rightarrow> string list" where
  "all_envs custom_environments =
     remdups (MATH_ENVIRONMENTS @ map fst ENVIRONMENT_VARIANTS @ custom_environments)"

definition env_pattern_str :: "string list \<Rightarrow> rx" where
  "env_pattern_str custom_environments =
     seq [lit (bsl # ''begin{''),
          Grp 1 (alts (map lit (all_envs custom_environments))),
          Opt (Chr CHR ''*''), Chr CHR ''}'',
          Opt (seq [Chr CHR ''['', Grp 2 (Many (NotChar CHR '']'')), Chr CHR '']''])]"

definition proof_pattern_str :: "string \<Rightarrow> rx" where
  \<comment> \<open>the argument is \<open>begin\<close> or \<open>end\<close>\<close>
  "proof_pattern_str kw =
     seq [lit (bsl # kw @ ''{''), Grp 1 (alts (map lit proof_variants)),
          Opt (Chr CHR ''*''), Chr CHR ''}'']"

definition init :: "string list \<Rightarrow> parser" where
  \<comment> \<open>\<open>__init__(custom_environments)\<close>; \<open>[]\<close> stands for \<open>None\<close> and for an empty list\<close>
  "init custom_environments =
     \<lparr>env_pattern = env_pattern_str custom_environments,
      proof_start_pattern = proof_pattern_str ''begin'',
      proof_end_pattern = proof_pattern_str ''end''\<rparr>"

fun comment_pos :: "char option \<Rightarrow> string \<Rightarrow> nat \<Rightarrow> nat option" where
  \<comment> \<open>the first \<open>%\<close> of the line that no backslash precedes; \<open>prev\<close> is \<open>line[i-1]\<close>\<close>
  "comment_pos prev [] i = None"
| "comment_pos prev (c # s) i =
     (if c = CHR ''%'' \<and> prev \<noteq> Some bsl then Some i else comment_pos (Some c) s (Suc i))"

definition remove_comment_line :: "string \<Rightarrow> string" where
  "remove_comment_line line =
     (case comment_pos None line 0 of Some p \<Rightarrow> take p line | None \<Rightarrow> line)"

definition remove_comments :: "string \<Rightarrow> string" where
  "remove_comments text =
     join [CHR 0x0A] (map remove_comment_line (split_on CHR 0x0A text))"

definition command_arg :: "string \<Rightarrow> rx" where
  \<comment> \<open>the pattern of a command with one braced argument, the argument being group 1\<close>
  "command_arg name =
     seq [lit (bsl # name @ ''{''), Grp 1 (Many1 (NotChar CHR ''}'')), Chr CHR ''}'']"

definition blank_lines :: rx where
  "blank_lines =
     seq [Chr CHR 0x0A, Many Whitespace, Chr CHR 0x0A, Many Whitespace, Many1 Newline]"

definition group1 :: "groups \<Rightarrow> string" where
  \<comment> \<open>the replacement template \<open>\1\<close>\<close>
  "group1 g = (case map_of g 1 of Some t \<Rightarrow> t | None \<Rightarrow> [])"

definition clean_content :: "string \<Rightarrow> string" where
  "clean_content content =
     (let content = rx_sub False (command_arg ''vspace'') (\<lambda>g. []) content;
          content = rx_sub False (command_arg ''hspace'') (\<lambda>g. []) content;
          content = rx_sub False (lit (bsl # ''newpage'')) (\<lambda>g. []) content;
          content = rx_sub False (lit (bsl # ''clearpage'')) (\<lambda>g. []) content;
          content = rx_sub False (lit (bsl # ''pagebreak'')) (\<lambda>g. []) content;
          content = rx_sub False (command_arg ''textbf'') group1 content;
          content = rx_sub False (command_arg ''textit'') group1 content;
          content = rx_sub False (command_arg ''emph'') group1 content;
          content = rx_sub False blank_lines (\<lambda>g. [CHR 0x0A, CHR 0x0A]) content;
          content = rx_sub False (Many1 SpaceTab) (\<lambda>g. '' '') content
      in strip content)"

definition ref_pattern :: rx where
  "ref_pattern =
     seq [Chr bsl, Opt (lit ''eq''), lit ''ref{'', Grp 1 (Many1 (NotChar CHR ''}'')),
          Chr CHR ''}'']"

fun collect_references :: "rmatch list \<Rightarrow> string list \<Rightarrow> py_error + string list" where
  "collect_references [] references = Inr references"
| "collect_references (m # ms) references =
     (case group m 1 of
        None \<Rightarrow> Inl AttributeError
      | Some t \<Rightarrow>
          (let ref_label = strip t in
           if ref_label \<noteq> [] \<and> ref_label \<notin> set references
           then collect_references ms (references @ [ref_label])
           else collect_references ms references))"

definition extract_references :: "string \<Rightarrow> py_error + string list" where
  "extract_references text = collect_references (rx_finditer False ref_pattern text) []"

definition label_pattern :: rx where
  "label_pattern =
     seq [Many Whitespace, lit (bsl # ''label{''), Grp 1 (Many1 (NotChar CHR ''}'')),
          Chr CHR ''}'']"

definition extract_label :: "string \<Rightarrow> nat \<Rightarrow> py_error + (string option \<times> nat)" where
  "extract_label text start_pos =
     (let search_text = slice text start_pos (start_pos + 200) in
      case rx_match False label_pattern search_text of
        Some m \<Rightarrow>
          (case group m 1 of
             None \<Rightarrow> Inl AttributeError
           | Some t \<Rightarrow> Inr (Some (strip t), start_pos + m_end m))
      | None \<Rightarrow> Inr (None, start_pos))"

definition normalize_env_type :: "string \<Rightarrow> string" where
  "normalize_env_type env_type =
     (let env_lower = rstrip_star (lower env_type) in
      case map_of ENVIRONMENT_VARIANTS env_lower of
        Some kind \<Rightarrow> kind
      | None \<Rightarrow>
          if env_lower \<in> set MATH_ENVIRONMENTS then env_lower
          else if contains ''th'' env_lower \<or> contains ''teo'' env_lower then ''theorem''
          else if contains ''def'' env_lower then ''definition''
          else if contains ''lem'' env_lower then ''lemma''
          else if contains ''prop'' env_lower then ''proposition''
          else if contains ''cor'' env_lower then ''corollary''
          else env_lower)"

definition end_pattern :: "string \<Rightarrow> rx" where
  "end_pattern env_base =
     seq [Chr bsl, Grp 1 (Or (lit ''begin'') (lit ''end'')), Chr CHR ''{'', lit env_base,
          Opt (Chr CHR ''*''), Chr CHR ''}'']"

text \<open>
  The three \<open>while\<close> loops of the parser are partial functions: \<open>None\<close> is a loop
  that does not return. What a loop returns is a Python value or the exception raised.
\<close>

partial_function (option) extract_environment_loop ::
  "rx \<Rightarrow> string \<Rightarrow> nat \<Rightarrow> int \<Rightarrow> nat \<Rightarrow> (py_error + string \<times> nat) option" where
  "extract_environment_loop pat text start_pos depth current_pos =
     (if depth > 0 \<and> current_pos < length text then
        (case rx_search True pat text current_pos of
           None \<Rightarrow> Some (Inr (drop start_pos text, length text))
         | Some m \<Rightarrow>
             (case group m 1 of
                None \<Rightarrow> Some (Inl AttributeError)
              | Some kw \<Rightarrow>
                  (let depth' = (if lower kw = ''begin'' then depth + 1 else depth - 1) in
                   if depth' = 0 then Some (Inr (slice text start_pos (m_start m), m_end m))
                   else extract_environment_loop pat text start_pos depth' (m_end m))))
      else Some (Inr (drop start_pos text, length text)))"

declare extract_environment_loop.simps [code]

definition extract_environment ::
  "string \<Rightarrow> nat \<Rightarrow> string \<Rightarrow> (py_error + string \<times> nat) option" where
  "extract_environment text start_pos env_type =
     (let env_base = rstrip_star env_type in
      extract_environment_loop (end_pattern env_base) text start_pos 1 start_pos)"

partial_function (option) extract_proof_loop ::
  "parser \<Rightarrow> string \<Rightarrow> nat \<Rightarrow> int \<Rightarrow> nat \<Rightarrow> (string \<times> nat) option" where
  "extract_proof_loop p text proof_content_start depth current_pos =
     (if depth > 0 \<and> current_pos < length text then
        (let begin_match = rx_search True (proof_start_pattern p) text current_pos;
             end_match = rx_search True (proof_end_pattern p) text current_pos;
             next_match =
               (case (begin_match, end_match) of
                  (Some b, Some e) \<Rightarrow>
                    if m_start b < m_start e then Some (b, True) else Some (e, False)
                | (Some b, None) \<Rightarrow> Some (b, True)
                | (None, Some e) \<Rightarrow> Some (e, False)
                | (None, None) \<Rightarrow> None)
         in case next_match of
              None \<Rightarrow> Some (drop proof_content_start text, length text)
            | Some (m, is_begin) \<Rightarrow>
                if is_begin
                then extract_proof_loop p text proof_content_start (depth + 1) (m_end m)
                else if depth - 1 = 0
                then Some (slice text proof_content_start (m_start m), m_end m)
                else extract_proof_loop p text proof_content_start (depth - 1) (m_end m))
      else Some (drop proof_content_start text, length text))"

declare extract_proof_loop.simps [code]

definition extract_proof :: "parser \<Rightarrow> string \<Rightarrow> nat \<Rightarrow> (string \<times> nat) option option" where
  \<comment> \<open>the outer \<open>option\<close> is the loop's; \<open>Some None\<close> is the Python result \<open>None\<close>\<close>
  "extract_proof p text start_pos =
     (let remaining = drop start_pos text in
      case rx_search True (proof_start_pattern p) remaining 0 of
        None \<Rightarrow> Some None
      | Some m \<Rightarrow>
          (let between = strip (take (m_start m) remaining) in
           if between \<noteq> [] then Some None
           else
             (let proof_content_start = start_pos + m_end m in
              map_option Some
                (extract_proof_loop p text proof_content_start 1 proof_content_start))))"

definition newtheorem_pattern :: rx where
  "newtheorem_pattern =
     seq [lit (bsl # ''newtheorem''), Opt (Chr CHR ''*''), Chr CHR ''{'',
          Grp 1 (Many1 (NotChar CHR ''}'')), Chr CHR ''}'',
          Opt (seq [Chr CHR ''['', Many (NotChar CHR '']''), Chr CHR '']'']),
          Chr CHR ''{'', Many1 (NotChar CHR ''}''), Chr CHR ''}'']"

definition theoremstyle_pattern :: rx where
  "theoremstyle_pattern =
     seq [lit (bsl # ''theoremstyle{''), Many1 (NotChar CHR ''}''), Chr CHR ''}'',
          Many Whitespace, lit (bsl # ''newtheorem''), Opt (Chr CHR ''*''), Chr CHR ''{'',
          Grp 1 (Many1 (NotChar CHR ''}'')), Chr CHR ''}'']"

fun collect_newtheorem :: "rmatch list \<Rightarrow> string list \<Rightarrow> py_error + string list" where
  \<comment> \<open>the first \<open>for\<close> loop of \<open>detect_custom_environments\<close>\<close>
  "collect_newtheorem [] custom_envs = Inr custom_envs"
| "collect_newtheorem (m # ms) custom_envs =
     (case group m 1 of
        None \<Rightarrow> Inl AttributeError
      | Some t \<Rightarrow>
          (let env_name = strip t in
           if env_name \<noteq> [] \<and> env_name \<notin> set MATH_ENVIRONMENTS
           then collect_newtheorem ms (custom_envs @ [env_name])
           else collect_newtheorem ms custom_envs))"

fun collect_theoremstyle :: "rmatch list \<Rightarrow> string list \<Rightarrow> py_error + string list" where
  \<comment> \<open>the second \<open>for\<close> loop\<close>
  "collect_theoremstyle [] custom_envs = Inr custom_envs"
| "collect_theoremstyle (m # ms) custom_envs =
     (case group m 1 of
        None \<Rightarrow> Inl AttributeError
      | Some t \<Rightarrow>
          (let env_name = strip t in
           if env_name \<noteq> [] \<and> env_name \<notin> set MATH_ENVIRONMENTS
              \<and> env_name \<notin> set custom_envs
           then collect_theoremstyle ms (custom_envs @ [env_name])
           else collect_theoremstyle ms custom_envs))"

definition detect_custom_environments :: "string \<Rightarrow> py_error + string list" where
  "detect_custom_environments text =
     (case collect_newtheorem (rx_finditer False newtheorem_pattern text) [] of
        Inl e \<Rightarrow> Inl e
      | Inr custom_envs \<Rightarrow>
          collect_theoremstyle (rx_finditer False theoremstyle_pattern text) custom_envs)"

record block =
  b_type :: string
  b_label :: "string option"
  b_title :: "string option"
  b_content_latex :: string
  b_proof_latex :: "string option"
  b_references :: "string list option"

text \<open>
  One turn of the \<open>while\<close> loop of \<open>parse_text\<close> at offset \<open>pos\<close>: the loop ends
  (\<open>Stop\<close>), or goes on at a new offset, with a block (\<open>Emit\<close>) or without (\<open>Skip\<close>).
  The turn is written in two halves, \<open>read_statement\<close> and the rest of \<open>walk_step\<close>.
\<close>

datatype step = Stop | Skip nat | Emit block nat

fun merge_references :: "string list \<Rightarrow> string list \<Rightarrow> string list" where
  "merge_references all_refs [] = all_refs"
| "merge_references all_refs (r # proof_refs) =
     (if r \<notin> set all_refs then merge_references (all_refs @ [r]) proof_refs
      else merge_references all_refs proof_refs)"

definition make_block ::
  "string \<Rightarrow> string option \<Rightarrow> string option \<Rightarrow> string \<Rightarrow> string option \<Rightarrow> string list
     \<Rightarrow> string list \<Rightarrow> block" where
  "make_block env_type label title content_clean proof_clean content_refs proof_refs =
     (let all_refs = merge_references content_refs proof_refs in
      \<lparr>b_type = env_type, b_label = label, b_title = title,
       b_content_latex = content_clean, b_proof_latex = proof_clean,
       b_references = (if all_refs \<noteq> [] then Some all_refs else None)\<rparr>)"

definition title_of :: "rmatch \<Rightarrow> string option" where
  \<comment> \<open>\<open>match.group(2).strip() if match.group(2) else None\<close>\<close>
  "title_of m =
     (case group m 2 of None \<Rightarrow> None | Some t \<Rightarrow> if t \<noteq> [] then Some (strip t) else None)"

text \<open>
  The first half of a turn: the next opening marker from \<open>pos\<close> on, its normalised
  kind and title, the label, and the content of the environment with the offset where it
  ends. \<open>None\<close> inside is the \<open>break\<close> of the loop: no opening marker is left.
\<close>

record statement =
  s_type :: string
  s_label :: "string option"
  s_title :: "string option"
  s_content :: string
  s_content_end :: nat

definition read_statement ::
  "parser \<Rightarrow> string \<Rightarrow> nat \<Rightarrow> (py_error + statement option) option" where
  "read_statement p text pos =
     (case rx_search True (env_pattern p) text pos of
        None \<Rightarrow> Some (Inr None)
      | Some m \<Rightarrow>
     (case group m 1 of
        None \<Rightarrow> Some (Inl AttributeError)
      | Some env_type_raw \<Rightarrow>
     (let env_type = normalize_env_type env_type_raw;
          title = title_of m
      in
      case extract_label text (m_end m) of
        Inl e \<Rightarrow> Some (Inl e)
      | Inr (label, content_start) \<Rightarrow>
     (case extract_environment text content_start env_type_raw of
        None \<Rightarrow> None
      | Some (Inl e) \<Rightarrow> Some (Inl e)
      | Some (Inr (content, content_end)) \<Rightarrow>
          Some (Inr (Some \<lparr>s_type = env_type, s_label = label, s_title = title,
                            s_content = content, s_content_end = content_end\<rparr>))))))"

text \<open>
  The second half: the content is cleaned and measured, the references are read, a proof
  is looked for right after the content, and the block is built.
\<close>

definition walk_step :: "parser \<Rightarrow> string \<Rightarrow> nat \<Rightarrow> (py_error + step) option" where
  "walk_step p text pos =
     (case read_statement p text pos of
        None \<Rightarrow> None
      | Some (Inl e) \<Rightarrow> Some (Inl e)
      | Some (Inr None) \<Rightarrow> Some (Inr Stop)
      | Some (Inr (Some st)) \<Rightarrow>
     (let content_clean = clean_content (s_content st); content_end = s_content_end st in
      if content_clean = [] \<or> length (strip content_clean) < 3
      then Some (Inr (Skip content_end))
      else
     (case extract_references (s_content st) of
        Inl e \<Rightarrow> Some (Inl e)
      | Inr content_refs \<Rightarrow>
     (case extract_proof p text content_end of
        None \<Rightarrow> None
      | Some None \<Rightarrow>
          Some (Inr (Emit (make_block (s_type st) (s_label st) (s_title st) content_clean None
                             content_refs [])
                       content_end))
      | Some (Some (proof_content, proof_end)) \<Rightarrow>
          (let proof_clean = clean_content proof_content in
           if proof_clean \<noteq> [] \<and> length (strip proof_clean) < 3
           then Some (Inr (Emit (make_block (s_type st) (s_label st) (s_title st) content_clean
                                  None content_refs [])
                            proof_end))
           else
             (case extract_references proof_content of
                Inl e \<Rightarrow> Some (Inl e)
              | Inr proof_refs \<Rightarrow>
                  Some (Inr (Emit (make_block (s_type st) (s_label st) (s_title st)
                                     content_clean (Some proof_clean) content_refs proof_refs)
                               proof_end))))))))"

partial_function (option) walk ::
  "parser \<Rightarrow> string \<Rightarrow> nat \<Rightarrow> block list \<Rightarrow> (py_error + block list) option" where
  "walk p text pos blocks =
     (if pos < length text then
        (case walk_step p text pos of
           None \<Rightarrow> None
         | Some (Inl e) \<Rightarrow> Some (Inl e)
         | Some (Inr Stop) \<Rightarrow> Some (Inr blocks)
         | Some (Inr (Skip next_pos)) \<Rightarrow> walk p text next_pos blocks
         | Some (Inr (Emit b next_pos)) \<Rightarrow> walk p text next_pos (blocks @ [b]))
      else Some (Inr blocks))"

declare walk.simps [code]

definition parse_text ::
  "parser \<Rightarrow> string \<Rightarrow> bool \<Rightarrow> (py_error + block list \<times> parser) option" where
  \<comment> \<open>the blocks returned, and the parser as the call leaves it\<close>
  "parse_text p text auto_detect_envs =
     (let text = remove_comments text in
      case (if auto_detect_envs
            then (case detect_custom_environments text of
                    Inl e \<Rightarrow> Inl e
                  | Inr custom_envs \<Rightarrow> Inr (if custom_envs \<noteq> [] then init custom_envs else p))
            else Inr p) of
        Inl e \<Rightarrow> Some (Inl e)
      | Inr p' \<Rightarrow>
          (case walk p' text 0 [] of
             None \<Rightarrow> None
           | Some (Inl e) \<Rightarrow> Some (Inl e)
           | Some (Inr blocks) \<Rightarrow> Some (Inr (blocks, p'))))"

primrec min_len :: "rx \<Rightarrow> nat" where
  "min_len Eps = 0"
| "min_len (Chr c) = 1"
| "min_len (Many cs) = 0"
| "min_len (Many1 cs) = 1"
| "min_len (Opt r) = 0"
| "min_len (Or r1 r2) = min (min_len r1) (min_len r2)"
| "min_len (Then r1 r2) = min_len r1 + min_len r2"
| "min_len (Grp n r) = min_len r"

primrec must :: "rx \<Rightarrow> nat set" where
  "must Eps = {}"
| "must (Chr c) = {}"
| "must (Many cs) = {}"
| "must (Many1 cs) = {}"
| "must (Opt r) = {}"
| "must (Or r1 r2) = must r1 \<inter> must r2"
| "must (Then r1 r2) = must r1 \<union> must r2"
| "must (Grp n r) = insert n (must r)"

definition keeps :: "rx \<Rightarrow> groups \<Rightarrow> groups \<Rightarrow> bool" where
  "keeps r g g' = (\<forall>n. n \<in> must r \<or> map_of g n \<noteq> None \<longrightarrow> map_of g' n \<noteq> None)"

fun starts_with_ci :: "string \<Rightarrow> string \<Rightarrow> bool" where
  "starts_with_ci [] s = True"
| "starts_with_ci (c # w) [] = False"
| "starts_with_ci (c # w) (d # s) = (lower_char c = lower_char d \<and> starts_with_ci w s)"

fun first_some :: "('a \<Rightarrow> 'b option) \<Rightarrow> 'a list \<Rightarrow> 'b option" where
  "first_some f [] = None"
| "first_some f (x # xs) = (case f x of Some y \<Rightarrow> Some y | None \<Rightarrow> first_some f xs)"

primrec finite_rx :: "rx \<Rightarrow> bool" where
  "finite_rx Eps = True"
| "finite_rx (Chr c) = True"
| "finite_rx (Many cs) = False"
| "finite_rx (Many1 cs) = False"
| "finite_rx (Opt r) = finite_rx r"
| "finite_rx (Or r1 r2) = (finite_rx r1 \<and> finite_rx r2)"
| "finite_rx (Then r1 r2) = (finite_rx r1 \<and> finite_rx r2)"
| "finite_rx (Grp n r) = finite_rx r"

type_synonym path = "string \<times> (nat \<times> nat \<times> nat) list"

definition shift :: "nat \<Rightarrow> (nat \<times> nat \<times> nat) list \<Rightarrow> (nat \<times> nat \<times> nat) list" where
  "shift d gs = map (\<lambda>(n, a, b). (n, d + a, d + b)) gs"

primrec paths :: "rx \<Rightarrow> path list" where
  "paths Eps = [([], [])]"
| "paths (Chr c) = [([c], [])]"
| "paths (Many cs) = []"
| "paths (Many1 cs) = []"
| "paths (Opt r) = paths r @ [([], [])]"
| "paths (Or r1 r2) = paths r1 @ paths r2"
| "paths (Then r1 r2) =
     concat (map (\<lambda>(w1, gs1). map (\<lambda>(w2, gs2). (w1 @ w2, shift (length w1) gs2 @ gs1)) (paths r2))
               (paths r1))"
| "paths (Grp n r) = map (\<lambda>(w, gs). (w, (n, 0, length w) # gs)) (paths r)"

definition caps :: "string \<Rightarrow> (nat \<times> nat \<times> nat) list \<Rightarrow> groups" where
  "caps s gs = map (\<lambda>(n, a, b). (n, slice s a b)) gs"

definition try_path :: "groups \<Rightarrow> string \<Rightarrow> (groups \<Rightarrow> string \<Rightarrow> 'a option) \<Rightarrow> path \<Rightarrow> 'a option" where
  "try_path g s k p =
     (if starts_with_ci (fst p) s then k (caps s (snd p) @ g) (drop (length (fst p)) s) else None)"

fun marker_at :: "(string \<times> bool) list \<Rightarrow> string \<Rightarrow> (bool \<times> nat) option" where
  "marker_at [] s = None"
| "marker_at ((w, is_begin) # ms) s =
     (if starts_with_ci w s then Some (is_begin, length w) else marker_at ms s)"

fun balance :: "(string \<times> bool) list \<Rightarrow> int \<Rightarrow> nat \<Rightarrow> string \<Rightarrow> nat \<Rightarrow> (nat \<times> nat) option" where
  "balance ms depth k [] i = None"
| "balance ms depth (Suc k) (c # s) i = balance ms depth k s (Suc i)"
| "balance ms depth 0 (c # s) i =
     (case marker_at ms (c # s) of
        None \<Rightarrow> balance ms depth 0 s (Suc i)
      | Some (is_begin, n) \<Rightarrow>
          if is_begin then balance ms (depth + 1) (n - 1) s (Suc i)
          else if depth - 1 = 0 then Some (i, i + n)
          else balance ms (depth - 1) (n - 1) s (Suc i))"

definition balanced_block :: "(string \<times> bool) list \<Rightarrow> string \<Rightarrow> nat \<Rightarrow> string \<times> nat" where
  "balanced_block ms text start =
     (case balance ms 1 0 (drop start text) start of
        Some (j, e) \<Rightarrow> (slice text start j, e)
      | None \<Rightarrow> (drop start text, length text))"

definition begin_marker :: "string \<Rightarrow> string" where
  "begin_marker name = bsl # ''begin{'' @ name @ ''}''"

definition end_marker :: "string \<Rightarrow> string" where
  "end_marker name = bsl # ''end{'' @ name @ ''}''"

definition env_markers :: "string \<Rightarrow> (string \<times> bool) list" where
  "env_markers name =
     [(begin_marker (name @ ''*''), True), (begin_marker name, True),
      (end_marker (name @ ''*''), False), (end_marker name, False)]"

fun first_marker :: "(string \<times> bool) list \<Rightarrow> string \<Rightarrow> nat \<Rightarrow> (nat \<times> bool \<times> nat) option" where
  "first_marker ms [] i = None"
| "first_marker ms (c # s) i =
     (case marker_at ms (c # s) of
        Some (is_begin, n) \<Rightarrow> Some (i, is_begin, n)
      | None \<Rightarrow> first_marker ms s (Suc i))"

definition nonempty_markers :: "(string \<times> bool) list \<Rightarrow> bool" where
  "nonempty_markers ms = list_all (\<lambda>(w, b). w \<noteq> []) ms"

definition bsl_markers :: "(string \<times> bool) list \<Rightarrow> bool" where
  "bsl_markers ms = list_all (\<lambda>(w, b). w \<noteq> [] \<and> hd w = bsl) ms"

definition proof_end_markers :: "(string \<times> bool) list" where
  "proof_end_markers =
     concat (map (\<lambda>v. [(end_marker (v @ ''*''), False), (end_marker v, False)]) proof_variants)"

definition proof_begin_markers :: "(string \<times> bool) list" where
  "proof_begin_markers =
     concat (map (\<lambda>v. [(begin_marker (v @ ''*''), True), (begin_marker v, True)]) proof_variants)"

definition proof_markers :: "(string \<times> bool) list" where
  "proof_markers = proof_end_markers @ proof_begin_markers"

fun clash :: "string \<Rightarrow> string \<Rightarrow> bool" where
  "clash [] w = False"
| "clash (c # e) [] = False"
| "clash (c # e) (d # w) = (lower_char c \<noteq> lower_char d \<or> clash e w)"

definition settled :: "(string \<times> bool) list \<Rightarrow> string \<Rightarrow> bool" where
  "settled ms w = list_all (\<lambda>(e, b). starts_with_ci e w \<or> clash e w) ms"

definition advances :: "nat \<Rightarrow> nat \<Rightarrow> step \<Rightarrow> bool" where
  "advances pos len st =
     (case st of Stop \<Rightarrow> True | Skip n \<Rightarrow> pos < n \<and> n \<le> len | Emit b n \<Rightarrow> pos < n \<and> n \<le> len)"

definition kept_content :: "block \<Rightarrow> bool" where
  "kept_content b =
     (3 \<le> length (b_content_latex b) \<and> strip (b_content_latex b) = b_content_latex b)"

definition kept_proof :: "block \<Rightarrow> bool" where
  "kept_proof b =
     (case b_proof_latex b of None \<Rightarrow> True | Some pr \<Rightarrow> pr = [] \<or> 3 \<le> length pr)"

definition proof_after :: "string \<Rightarrow> nat \<Rightarrow> (string \<times> nat) option" where
  "proof_after text start_pos =
     (case first_marker proof_begin_markers (drop start_pos text) 0 of
        None \<Rightarrow> None
      | Some (j, b, n) \<Rightarrow>
          if list_all isspace (take j (drop start_pos text))
          then Some (balanced_block proof_markers text (start_pos + (j + n)))
          else None)"

definition refs_of :: "string \<Rightarrow> string list" where
  "refs_of text = (case extract_references text of Inr rs \<Rightarrow> rs | Inl e \<Rightarrow> [])"

definition step_of :: "string \<Rightarrow> statement \<Rightarrow> step" where
  "step_of text st =
     (let cc = clean_content (s_content st); ce = s_content_end st;
          refs = refs_of (s_content st)
      in if length cc < 3 then Skip ce
         else (case proof_after text ce of
                 None \<Rightarrow> Emit (make_block (s_type st) (s_label st) (s_title st) cc None refs []) ce
               | Some (pcont, pend) \<Rightarrow>
                   (let pc = clean_content pcont in
                    if pc \<noteq> [] \<and> length pc < 3
                    then Emit (make_block (s_type st) (s_label st) (s_title st) cc None refs [])
                           pend
                    else Emit (make_block (s_type st) (s_label st) (s_title st) cc (Some pc) refs
                                 (refs_of pcont))
                           pend)))"

definition next_pos :: "step \<Rightarrow> nat option" where
  "next_pos s = (case s of Stop \<Rightarrow> None | Skip n \<Rightarrow> Some n | Emit b n \<Rightarrow> Some n)"

definition nonspace_count :: "string \<Rightarrow> nat" where
  "nonspace_count s = length (filter (\<lambda>c. \<not> isspace c) s)"

definition has_fragment :: "string \<Rightarrow> string \<Rightarrow> bool" where
  "has_fragment w s = (\<exists>u v. s = u @ w @ v)"

fun bracketed :: "string \<Rightarrow> string option" where
  "bracketed [] = None"
| "bracketed (c # s) =
     (if c = CHR ''['' \<and> CHR '']'' \<in> set s then Some (takeWhile (\<lambda>d. d \<noteq> CHR '']'') s)
      else None)"

definition title_pattern :: rx where
  "title_pattern = Opt (seq [Chr CHR ''['', Grp 2 (Many (NotChar CHR '']'')), Chr CHR '']''])"

definition head_pattern :: "string list \<Rightarrow> rx" where
  "head_pattern c =
     seq [lit (bsl # ''begin{''), Grp 1 (alts (map lit (all_envs c))),
          Opt (Chr CHR ''*''), Chr CHR ''}'']"

section \<open>Lemmas\<close>

text \<open>
  \<open>lower_char\<close> and \<open>isspace\<close> on the bits of a character: the equations that
  evaluate them.
\<close>

lemma lower_char_bits [code]:
  "lower_char (Char b0 b1 b2 b3 b4 b5 b6 b7) =
     (if b6 \<and> \<not> b5 \<and>
         (if b7 then \<not> (b0 \<and> b1 \<and> b2 \<and> b4)
          else (b0 \<or> b1 \<or> b2 \<or> b3 \<or> b4) \<and> \<not> (b4 \<and> b3 \<and> (b2 \<or> (b1 \<and> b0))))
      then Char b0 b1 b2 b3 b4 True b6 b7 else Char b0 b1 b2 b3 b4 b5 b6 b7)"
  by (cases b0; cases b1; cases b2; cases b3; cases b4; cases b5; cases b6; cases b7;
      simp add: lower_char_def char_of_def bit_Suc_0_iff)

lemma isspace_bits [code]:
  "isspace (Char b0 b1 b2 b3 b4 b5 b6 b7) =
     (if b7 then \<not> b6 \<and> \<not> b3 \<and> \<not> b1 \<and> ((b5 \<and> \<not> b4 \<and> \<not> b2 \<and> \<not> b0) \<or> (\<not> b5 \<and> \<not> b4 \<and> b2 \<and> b0))
      else \<not> b6 \<and>
        (if b5 then \<not> (b0 \<or> b1 \<or> b2 \<or> b3 \<or> b4)
         else if b4 then b3 \<and> b2
         else b3 \<and> ((\<not> b2 \<and> (b1 \<or> b0)) \<or> (b2 \<and> \<not> b1))))"
  by (cases b0; cases b1; cases b2; cases b3; cases b4; cases b5; cases b6; cases b7;
      simp add: isspace_def)

lemma backoff_SomeD:
  "backoff lo k s n = Some x \<Longrightarrow> \<exists>u. lo \<le> u \<and> u \<le> n \<and> k (drop u s) = Some x"
proof (induction n)
  case 0
  then show ?case by (auto split: if_splits)
next
  case (Suc n)
  show ?case
  proof (cases "k (drop (Suc n) s)")
    case None
    with Suc.prems have "backoff lo k s n = Some x" by (auto split: if_splits)
    from Suc.IH [OF this] show ?thesis by (meson le_Suc_eq)
  next
    case (Some y)
    with Suc.prems have "y = x" "\<not> Suc n < lo" by (auto split: if_splits)
    with Some show ?thesis by (intro exI [of _ "Suc n"]) auto
  qed
qed

lemma keeps_refl: "must r = {} \<Longrightarrow> keeps r g g"
  by (simp add: keeps_def)

lemma rx_m_SomeD:
  "rx_m r ic g s k = Some x \<Longrightarrow>
   \<exists>g' u. min_len r \<le> u \<and> u \<le> length s \<and> k g' (drop u s) = Some x \<and> keeps r g g'"
proof (induction r arbitrary: g s k x)
  case Eps
  then show ?case by (intro exI [of _ g] exI [of _ 0]) (simp add: keeps_def)
next
  case (Chr c)
  then obtain d t where s: "s = d # t" and k: "k g t = Some x"
    by (auto split: list.splits if_splits)
  show ?case using s k by (intro exI [of _ g] exI [of _ 1]) (simp add: keeps_def)
next
  case (Many cs)
  then have "backoff 0 (k g) s (length (takeWhile (in_cset cs) s)) = Some x" by simp
  from backoff_SomeD [OF this] obtain u
    where "u \<le> length (takeWhile (in_cset cs) s)" "k g (drop u s) = Some x" by blast
  moreover have "length (takeWhile (in_cset cs) s) \<le> length s" by (rule length_takeWhile_le)
  ultimately show ?case by (intro exI [of _ g] exI [of _ u]) (simp add: keeps_def)
next
  case (Many1 cs)
  then have "backoff 1 (k g) s (length (takeWhile (in_cset cs) s)) = Some x" by simp
  from backoff_SomeD [OF this] obtain u
    where "1 \<le> u" "u \<le> length (takeWhile (in_cset cs) s)" "k g (drop u s) = Some x" by blast
  moreover have "length (takeWhile (in_cset cs) s) \<le> length s" by (rule length_takeWhile_le)
  ultimately show ?case by (intro exI [of _ g] exI [of _ u]) (simp add: keeps_def)
next
  case (Opt r)
  show ?case
  proof (cases "rx_m r ic g s k")
    case None
    with Opt.prems have "k g s = Some x" by simp
    then show ?thesis by (intro exI [of _ g] exI [of _ 0]) (simp add: keeps_def)
  next
    case (Some y)
    with Opt.prems have "rx_m r ic g s k = Some x" by simp
    from Opt.IH [OF this] obtain g' u where
      "u \<le> length s" "k g' (drop u s) = Some x" "keeps r g g'" by blast
    then show ?thesis by (intro exI [of _ g'] exI [of _ u]) (simp add: keeps_def)
  qed
next
  case (Or r1 r2)
  show ?case
  proof (cases "rx_m r1 ic g s k")
    case None
    with Or.prems have "rx_m r2 ic g s k = Some x" by simp
    from Or.IH(2) [OF this] obtain g' u where
      "min_len r2 \<le> u" "u \<le> length s" "k g' (drop u s) = Some x" "keeps r2 g g'" by blast
    then show ?thesis by (intro exI [of _ g'] exI [of _ u]) (simp add: keeps_def)
  next
    case (Some y)
    with Or.prems have "rx_m r1 ic g s k = Some x" by simp
    from Or.IH(1) [OF this] obtain g' u where
      "min_len r1 \<le> u" "u \<le> length s" "k g' (drop u s) = Some x" "keeps r1 g g'" by blast
    then show ?thesis by (intro exI [of _ g'] exI [of _ u]) (simp add: keeps_def)
  qed
next
  case (Then r1 r2)
  then have "rx_m r1 ic g s (\<lambda>g' s'. rx_m r2 ic g' s' k) = Some x" by simp
  from Then.IH(1) [OF this] obtain g1 u1 where
    1: "min_len r1 \<le> u1" "u1 \<le> length s" "rx_m r2 ic g1 (drop u1 s) k = Some x"
       "keeps r1 g g1" by blast
  from Then.IH(2) [OF 1(3)] obtain g2 u2 where
    2: "min_len r2 \<le> u2" "u2 \<le> length (drop u1 s)" "k g2 (drop u2 (drop u1 s)) = Some x"
       "keeps r2 g1 g2" by blast
  have "keeps (Then r1 r2) g g2" using 1(4) 2(4) unfolding keeps_def by simp
  moreover have "k g2 (drop (u1 + u2) s) = Some x" using 2(3) by (simp add: add.commute)
  moreover have "u1 + u2 \<le> length s" using 1(2) 2(2) by simp
  moreover have "min_len (Then r1 r2) \<le> u1 + u2" using 1(1) 2(1) by simp
  ultimately show ?case by blast
next
  case (Grp m r)
  then have "rx_m r ic g s (\<lambda>g' s'. k ((m, take (length s - length s') s) # g') s') = Some x"
    by simp
  from Grp.IH [OF this] obtain g1 u where
    1: "min_len r \<le> u" "u \<le> length s"
       "k ((m, take (length s - length (drop u s)) s) # g1) (drop u s) = Some x"
       "keeps r g g1" by blast
  have "keeps (Grp m r) g ((m, take (length s - length (drop u s)) s) # g1)"
    using 1(4) unfolding keeps_def by simp
  with 1 show ?case unfolding min_len.simps by blast
qed

lemma rx_first_SomeD:
  assumes "rx_first ic r s = Some (g, n)"
  shows "min_len r \<le> n" "n \<le> length s" "\<forall>i\<in>must r. map_of g i \<noteq> None"
proof -
  from assms obtain g' u where
    "min_len r \<le> u" "u \<le> length s" "Some (g', length s - length (drop u s)) = Some (g, n)"
    "keeps r [] g'"
    unfolding rx_first_def by (drule_tac rx_m_SomeD) blast
  then show "min_len r \<le> n" "n \<le> length s" "\<forall>i\<in>must r. map_of g i \<noteq> None"
    by (auto simp: keeps_def)
qed

lemma first_some_append:
  "first_some f (xs @ ys) = (case first_some f xs of Some y \<Rightarrow> Some y | None \<Rightarrow> first_some f ys)"
  by (induction xs) (auto split: option.splits)

lemma first_some_map: "first_some f (map h xs) = first_some (\<lambda>x. f (h x)) xs"
  by (induction xs) (auto split: option.splits)

lemma first_some_concat:
  "first_some f (concat xss) = first_some (\<lambda>xs. first_some f xs) xss"
  by (induction xss) (auto simp: first_some_append split: option.splits)

lemma first_some_cong:
  "(\<And>x. x \<in> set xs \<Longrightarrow> f x = h x) \<Longrightarrow> first_some f xs = first_some h xs"
  by (induction xs) (auto split: option.splits)

lemma first_some_None: "(\<And>x. x \<in> set xs \<Longrightarrow> f x = None) \<Longrightarrow> first_some f xs = None"
  by (induction xs) auto

lemma starts_with_ci_append:
  "starts_with_ci (a @ b) s = (starts_with_ci a s \<and> starts_with_ci b (drop (length a) s))"
  by (induction a s rule: starts_with_ci.induct) auto

lemma starts_with_ci_length: "starts_with_ci w s \<Longrightarrow> length w \<le> length s"
  by (induction w s rule: starts_with_ci.induct) auto

lemma caps_append: "caps s (a @ b) = caps s a @ caps s b"
  by (simp add: caps_def)

lemma caps_shift: "caps s (shift d gs) = caps (drop d s) gs"
  by (auto simp: caps_def shift_def slice_def add.commute)

lemma rx_m_paths:
  "finite_rx r \<Longrightarrow> rx_m r True g s k = first_some (try_path g s k) (paths r)"
proof (induction r arbitrary: g s k)
  case Eps
  show ?case by (simp add: try_path_def caps_def split: option.splits)
next
  case (Chr c)
  show ?case by (cases s) (auto simp: try_path_def caps_def chr_eq_def split: option.splits)
next
  case (Opt r)
  then show ?case by (simp add: first_some_append try_path_def caps_def split: option.splits)
next
  case (Or r1 r2)
  then show ?case by (simp add: first_some_append split: option.splits)
next
  case (Then r1 r2)
  have "rx_m (Then r1 r2) True g s k =
        first_some (try_path g s (\<lambda>g' s'. first_some (try_path g' s' k) (paths r2))) (paths r1)"
    using Then by simp
  also have "\<dots> = first_some (try_path g s k) (paths (Then r1 r2))"
    unfolding paths.simps first_some_concat first_some_map
  proof (rule first_some_cong)
    fix p assume "p \<in> set (paths r1)"
    obtain w1 gs1 where p: "p = (w1, gs1)" by (cases p)
    show "try_path g s (\<lambda>g' s'. first_some (try_path g' s' k) (paths r2)) p =
          first_some (try_path g s k)
            (case p of (w1, gs1) \<Rightarrow> map (\<lambda>(w2, gs2). (w1 @ w2, shift (length w1) gs2 @ gs1)) (paths r2))"
    proof (cases "starts_with_ci w1 s")
      case False
      then show ?thesis unfolding p
        by (simp add: try_path_def first_some_map starts_with_ci_append case_prod_unfold
            first_some_None)
    next
      case True
      have "try_path (caps s gs1 @ g) (drop (length w1) s) k =
            (\<lambda>q. try_path g s k (w1 @ fst q, shift (length w1) (snd q) @ gs1))"
        using True
        by (intro ext)
          (simp add: try_path_def starts_with_ci_append caps_append caps_shift add.commute)
      then show ?thesis unfolding p using True
        by (simp add: try_path_def [of g s "\<lambda>g' s'. first_some (try_path g' s' k) (paths r2)"]
            first_some_map case_prod_unfold)
    qed
  qed
  finally show ?case .
next
  case (Grp n r)
  have "rx_m (Grp n r) True g s k =
        first_some (try_path g s (\<lambda>g' s'. k ((n, take (length s - length s') s) # g') s')) (paths r)"
    using Grp by simp
  also have "\<dots> = first_some (try_path g s k) (paths (Grp n r))"
    unfolding paths.simps first_some_map
  proof (rule first_some_cong)
    fix p assume "p \<in> set (paths r)"
    obtain w gs where p: "p = (w, gs)" by (cases p)
    show "try_path g s (\<lambda>g' s'. k ((n, take (length s - length s') s) # g') s') p =
          try_path g s k (case p of (w, gs) \<Rightarrow> (w, (n, 0, length w) # gs))"
      unfolding p using starts_with_ci_length [of w s]
      by (simp add: try_path_def caps_def slice_def)
  qed
  finally show ?case .
qed simp_all

lemma marker_at_SomeD:
  "marker_at ms s = Some (b, n) \<Longrightarrow> \<exists>w. (w, b) \<in> set ms \<and> n = length w \<and> starts_with_ci w s"
  by (induction ms) (auto split: if_splits)

lemma marker_at_bounds:
  assumes "marker_at ms s = Some (b, n)" "nonempty_markers ms"
  shows "1 \<le> n" "n \<le> length s"
proof -
  from marker_at_SomeD [OF assms(1)] obtain w where
    w: "(w, b) \<in> set ms" "n = length w" "starts_with_ci w s" by blast
  from w(1) assms(2) have "w \<noteq> []" by (auto simp: nonempty_markers_def list_all_iff)
  then show "1 \<le> n" using w(2) by (cases w) auto
  show "n \<le> length s" using w(2,3) by (simp add: starts_with_ci_length)
qed

lemma marker_at_Nil: "nonempty_markers ms \<Longrightarrow> marker_at ms [] = None"
  by (induction ms) (auto simp: nonempty_markers_def neq_Nil_conv)

lemma balance_skip: "balance ms d k s i = balance ms d 0 (drop k s) (i + k)"
proof (induction k arbitrary: s i)
  case 0
  show ?case by simp
next
  case (Suc k)
  show ?case
  proof (cases s)
    case Nil
    then show ?thesis by simp
  next
    case (Cons c t)
    then show ?thesis using Suc [of t "Suc i"] by simp
  qed
qed

lemma first_marker_SomeD:
  assumes "first_marker ms s i = Some (j, b, n)" "nonempty_markers ms"
  shows "i \<le> j \<and> j + n \<le> i + length s \<and> 1 \<le> n \<and> marker_at ms (drop (j - i) s) = Some (b, n)"
  using assms(1)
proof (induction s arbitrary: i)
  case Nil
  then show ?case by simp
next
  case (Cons c t)
  show ?case
  proof (cases "marker_at ms (c # t)")
    case None
    with Cons.prems have "first_marker ms t (Suc i) = Some (j, b, n)" by simp
    from Cons.IH [OF this] have
      *: "Suc i \<le> j" "j + n \<le> Suc i + length t" "1 \<le> n"
         "marker_at ms (drop (j - Suc i) t) = Some (b, n)" by auto
    from *(1) have "j - i = Suc (j - Suc i)" by simp
    then have "drop (j - i) (c # t) = drop (j - Suc i) t" by simp
    with * show ?thesis by auto
  next
    case (Some a)
    with Cons.prems have a: "a = (b, n)" "j = i" by (auto split: prod.splits)
    from marker_at_bounds [OF Some [unfolded a(1)] assms(2)] Some a
    show ?thesis by auto
  qed
qed

lemma balance_first_marker:
  assumes "nonempty_markers ms"
  shows "balance ms d 0 s i =
         (case first_marker ms s i of
            None \<Rightarrow> None
          | Some (j, b, n) \<Rightarrow>
              if b then balance ms (d + 1) 0 (drop (j - i + n) s) (j + n)
              else if d - 1 = 0 then Some (j, j + n)
              else balance ms (d - 1) 0 (drop (j - i + n) s) (j + n))"
proof (induction s arbitrary: i)
  case Nil
  show ?case by simp
next
  case (Cons c t)
  show ?case
  proof (cases "marker_at ms (c # t)")
    case None
    show ?thesis
    proof (cases "first_marker ms t (Suc i)")
      case N: None
      with None Cons [of "Suc i"] show ?thesis by simp
    next
      case (Some a)
      obtain j b n where a: "a = (j, b, n)" by (cases a)
      from first_marker_SomeD [OF Some [unfolded a] assms] have "Suc i \<le> j" by simp
      then have "j - i + n = Suc (j - Suc i + n)" by simp
      then have "drop (j - i + n) (c # t) = drop (j - Suc i + n) t" by simp
      with None Some a Cons [of "Suc i"] show ?thesis by simp
    qed
  next
    case (Some a)
    obtain b n where a: "a = (b, n)" by (cases a)
    from marker_at_bounds [OF Some [unfolded a] assms] have "1 \<le> n" by simp
    then obtain n' where n: "n = Suc n'" by (cases n) auto
    have "balance ms D n' t (Suc i) = balance ms D 0 (drop n' t) (Suc (i + n'))" for D
      using balance_skip [of ms D n' t "Suc i"] by simp
    then show ?thesis using Some a n by simp
  qed
qed

lemma paths_lit: "paths (lit w) = [(w, [])]"
  by (induction w) (auto simp: shift_def)

lemma finite_lit: "finite_rx (lit w)"
  by (induction w) auto

lemma paths_end_pattern:
  "paths (end_pattern nm) =
    [(bsl # ''begin{'' @ nm @ ''*}'', [(1, 1, 6)]), (bsl # ''begin{'' @ nm @ ''}'', [(1, 1, 6)]),
     (bsl # ''end{'' @ nm @ ''*}'', [(1, 1, 4)]), (bsl # ''end{'' @ nm @ ''}'', [(1, 1, 4)])]"
  by (simp add: end_pattern_def paths_lit shift_def)

lemma finite_end_pattern: "finite_rx (end_pattern nm)"
  by (simp add: end_pattern_def finite_lit)

lemma try_path_final:
  "try_path g s (\<lambda>g' s'. Some (g', length s - length s')) (w, gs) =
     (if starts_with_ci w s then Some (caps s gs @ g, length w) else None)"
  using starts_with_ci_length [of w s] by (auto simp: try_path_def)

lemma end_pattern_first:
  "rx_first True (end_pattern nm) s =
     (case marker_at (env_markers nm) s of
        None \<Rightarrow> None
      | Some (b, n) \<Rightarrow> Some ([(1, slice s 1 (if b then 6 else 4))], n))"
  unfolding rx_first_def rx_m_paths [OF finite_end_pattern] paths_end_pattern env_markers_def
    first_some.simps marker_at.simps try_path_final begin_marker_def end_marker_def
  by (simp add: caps_def)

lemma starts_with_ci_lower:
  "starts_with_ci w s \<Longrightarrow> lower (take (length w) s) = lower w"
  by (induction w s rule: starts_with_ci.induct) (auto simp: lower_def)

lemma lower_begin: "lower ''begin'' = ''begin''"
  by code_simp

lemma lower_bsl_begin: "lower (bsl # ''begin'') = bsl # ''begin''"
  by code_simp

lemma env_markers_keyword:
  assumes "marker_at (env_markers nm) s = Some (b, n)"
  shows "(lower (slice s 1 (if b then 6 else 4)) = ''begin'') = b"
proof (cases b)
  case True
  with assms have "starts_with_ci ((bsl # ''begin'') @ (''{'' @ nm @ ''*}'')) s
     \<or> starts_with_ci ((bsl # ''begin'') @ (''{'' @ nm @ ''}'')) s"
    by (auto simp: env_markers_def begin_marker_def end_marker_def split: if_splits)
  then have "starts_with_ci (bsl # ''begin'') s"
    unfolding starts_with_ci_append by blast
  from starts_with_ci_lower [OF this] have "lower (take 6 s) = bsl # ''begin''"
    by (simp add: lower_bsl_begin eval_nat_numeral)
  then have "drop 1 (lower (take 6 s)) = ''begin''" by simp
  moreover have "drop 1 (lower (take 6 s)) = lower (slice s 1 6)"
    by (simp add: lower_def slice_def drop_map drop_take)
  ultimately show ?thesis using True by simp
next
  case False
  have "length (lower (slice s 1 4)) \<le> 3" by (simp add: lower_def slice_def)
  then have "lower (slice s 1 4) \<noteq> ''begin''" by auto
  with False show ?thesis by simp
qed

lemma nonempty_env_markers: "nonempty_markers (env_markers nm)"
  by (simp add: nonempty_markers_def env_markers_def begin_marker_def end_marker_def)

lemma end_pattern_search_from:
  "rx_search_from True (end_pattern nm) s i =
     (case first_marker (env_markers nm) s i of
        None \<Rightarrow> None
      | Some (j, b, n) \<Rightarrow>
          Some \<lparr>m_start = j, m_end = j + n,
                m_groups = [(1, slice (drop (j - i) s) 1 (if b then 6 else 4))]\<rparr>)"
proof (induction s arbitrary: i)
  case Nil
  show ?case by (simp add: end_pattern_first marker_at_Nil [OF nonempty_env_markers])
next
  case (Cons c t)
  show ?case
  proof (cases "marker_at (env_markers nm) (c # t)")
    case None
    show ?thesis
    proof (cases "first_marker (env_markers nm) t (Suc i)")
      case N: None
      with None Cons [of "Suc i"] show ?thesis by (simp add: end_pattern_first)
    next
      case (Some a)
      obtain j b n where a: "a = (j, b, n)" by (cases a)
      from first_marker_SomeD [OF Some [unfolded a] nonempty_env_markers]
      have "Suc i \<le> j" by simp
      then have "j - i = Suc (j - Suc i)" by simp
      then have "drop (j - i) (c # t) = drop (j - Suc i) t" by simp
      with None Some a Cons [of "Suc i"] show ?thesis by (simp add: end_pattern_first)
    qed
  next
    case (Some a)
    then show ?thesis by (cases a) (simp add: end_pattern_first)
  qed
qed

lemma extract_environment_loop_balance:
  assumes "0 < depth" "pos \<le> length text"
  shows "extract_environment_loop (end_pattern nm) text start depth pos =
         Some (Inr (case balance (env_markers nm) depth 0 (drop pos text) pos of
                      Some (j, e) \<Rightarrow> (slice text start j, e)
                    | None \<Rightarrow> (drop start text, length text)))"
  using assms
proof (induction "length text - pos" arbitrary: pos depth rule: less_induct)
  case less
  let ?ms = "env_markers nm"
  show ?case
  proof (cases "pos < length text")
    case False
    with less.prems have "drop pos text = []" by simp
    with False show ?thesis by (subst extract_environment_loop.simps) simp
  next
    case True
    have search: "rx_search True (end_pattern nm) text pos =
                  rx_search_from True (end_pattern nm) (drop pos text) pos"
      using True by (simp add: rx_search_def min_def)
    show ?thesis
    proof (cases "first_marker ?ms (drop pos text) pos")
      case None
      then show ?thesis using True less.prems(1)
        by (subst extract_environment_loop.simps)
           (simp add: search end_pattern_search_from balance_first_marker [OF nonempty_env_markers])
    next
      case (Some a)
      obtain j b n where a: "a = (j, b, n)" by (cases a)
      note fm = Some [unfolded a]
      from first_marker_SomeD [OF fm nonempty_env_markers] have
        bounds: "pos \<le> j" "j + n \<le> length text" "1 \<le> n"
        and mk: "marker_at ?ms (drop (j - pos) (drop pos text)) = Some (b, n)"
        using True by auto
      from env_markers_keyword [OF mk]
      have kw: "(lower (slice (drop (j - pos) (drop pos text)) 1 (if b then 6 else 4)) = ''begin'') = b" .
      have dr: "j - pos + n + pos = j + n" "j - pos + pos = j"
        using bounds by simp_all
      have rec: "extract_environment_loop (end_pattern nm) text start d (j + n) =
         Some (Inr (case balance ?ms d 0 (drop (j + n) text) (j + n) of
                      Some (j, e) \<Rightarrow> (slice text start j, e)
                    | None \<Rightarrow> (drop start text, length text)))" if "0 < d" for d
        using bounds True that by (intro less.hyps) auto
      have kw': "(lower (slice (drop j text) (Suc 0) (if b then 6 else 4)) = ''begin'') = b"
        using kw dr by simp
      have lhs: "extract_environment_loop (end_pattern nm) text start depth pos =
        (if b then extract_environment_loop (end_pattern nm) text start (depth + 1) (j + n)
         else if depth - 1 = 0 then Some (Inr (slice text start j, j + n))
         else extract_environment_loop (end_pattern nm) text start (depth - 1) (j + n))"
        using \<open>pos < length text\<close> less.prems(1) kw'
        by (subst extract_environment_loop.simps)
           (auto simp: search end_pattern_search_from fm group_def dr)
      have bal: "balance ?ms depth 0 (drop pos text) pos =
        (if b then balance ?ms (depth + 1) 0 (drop (j + n) text) (j + n)
         else if depth - 1 = 0 then Some (j, j + n)
         else balance ?ms (depth - 1) 0 (drop (j + n) text) (j + n))"
        by (simp add: balance_first_marker [OF nonempty_env_markers, where d = depth] fm dr)
      show ?thesis
      proof (cases b)
        case True
        have "0 < depth + 1" using less.prems(1) by simp
        from rec [OF this] show ?thesis unfolding lhs bal using True by simp
      next
        case False
        show ?thesis
        proof (cases "depth - 1 = 0")
          case d0: True
          show ?thesis unfolding lhs bal using False d0 by simp
        next
          case d1: False
          then have "0 < depth - 1" using less.prems(1) by simp
          from rec [OF this] show ?thesis unfolding lhs bal using False d1 by simp
        qed
      qed
    qed
  qed
qed

lemma extract_environment_balanced:
  "extract_environment text start_pos env_type =
     Some (Inr (balanced_block (env_markers (rstrip_star env_type)) text start_pos))"
proof (cases "start_pos \<le> length text")
  case True
  then show ?thesis
    by (simp add: extract_environment_def balanced_block_def extract_environment_loop_balance)
next
  case False
  then show ?thesis
    by (subst extract_environment_def, simp only: Let_def, subst extract_environment_loop.simps)
       (simp add: balanced_block_def)
qed

lemma lower_char_bsl: "lower_char c = lower_char bsl \<Longrightarrow> c = bsl"
proof -
  assume a: "lower_char c = lower_char bsl"
  have b: "lower_char bsl = bsl" by code_simp
  have n: "(of_char bsl :: nat) = 92" by code_simp
  define k where "k = (of_char c :: nat)"
  show ?thesis
  proof (cases "lower_char c = c")
    case True
    with a b show ?thesis by simp
  next
    case False
    then have r: "lower_char c = char_of (k + 32)"
      and rg: "(65 \<le> k \<and> k \<le> 90) \<or> (192 \<le> k \<and> k \<le> 222)"
      by (auto simp: lower_char_def Let_def k_def split: if_splits)
    from a b r have "(of_char (char_of (k + 32) :: char) :: nat) = 92"
      using n by simp
    then have m: "(k + 32) mod 256 = 92" by simp
    from rg have "k + 32 < 256" by auto
    then have "(k + 32) mod 256 = k + 32" by (rule mod_less)
    with m have "k + 32 = 92" by simp
    with rg have False by auto
    then show ?thesis ..
  qed
qed

lemma starts_with_ci_self: "starts_with_ci w (w @ s)"
  by (induction w) auto

lemma marker_at_bsl:
  "bsl_markers ms \<Longrightarrow> c \<noteq> bsl \<Longrightarrow> marker_at ms (c # s) = None"
proof (induction ms)
  case Nil
  show ?case by simp
next
  case (Cons m ms)
  obtain w b where m: "m = (w, b)" by (cases m)
  from Cons.prems(1) m obtain w' where w: "w = bsl # w'"
    by (cases w) (auto simp: bsl_markers_def)
  from Cons have "marker_at ms (c # s) = None" by (simp add: bsl_markers_def)
  moreover have "\<not> starts_with_ci w (c # s)"
    using lower_char_bsl [of c] Cons.prems(2) unfolding w by auto
  ultimately show ?case by (simp add: m)
qed

lemma balance_plain:
  "bsl_markers ms \<Longrightarrow> bsl \<notin> set a \<Longrightarrow>
   balance ms d 0 (a @ s) i = balance ms d 0 s (i + length a)"
  by (induction a arbitrary: i) (auto simp: marker_at_bsl)

lemma balance_marker:
  assumes "marker_at ms (w @ s) = Some (b, length w)" "w \<noteq> []"
  shows "balance ms d 0 (w @ s) i =
         (if b then balance ms (d + 1) 0 s (i + length w)
          else if d - 1 = 0 then Some (i, i + length w)
          else balance ms (d - 1) 0 s (i + length w))"
proof -
  from assms(2) obtain c w' where w: "w = c # w'" by (cases w) auto
  have "balance ms D (length w') (w' @ s) (Suc i) = balance ms D 0 s (Suc (i + length w'))" for D
    using balance_skip [of ms D "length w'" "w' @ s" "Suc i"] by simp
  then show ?thesis using assms(1) unfolding w by simp
qed

lemma star_brace: "lower_char CHR ''*'' \<noteq> lower_char CHR ''}''"
  by code_simp

lemma b_e: "lower_char CHR ''b'' \<noteq> lower_char CHR ''e''"
  by code_simp

lemma marker_at_begin:
  "marker_at (env_markers nm) (begin_marker nm @ s) = Some (True, length (begin_marker nm))"
proof -
  have "\<not> starts_with_ci ((bsl # ''begin{'' @ nm) @ ''*}'') ((bsl # ''begin{'' @ nm) @ ''}'' @ s)"
    unfolding starts_with_ci_append by (simp add: star_brace)
  moreover have "starts_with_ci (begin_marker nm) (begin_marker nm @ s)"
    by (rule starts_with_ci_self)
  ultimately show ?thesis by (simp add: env_markers_def begin_marker_def)
qed

lemma marker_at_end:
  "marker_at (env_markers nm) (end_marker nm @ s) = Some (False, length (end_marker nm))"
proof -
  have "\<not> starts_with_ci ((bsl # ''end{'' @ nm) @ ''*}'') ((bsl # ''end{'' @ nm) @ ''}'' @ s)"
    unfolding starts_with_ci_append by (simp add: star_brace)
  moreover have "starts_with_ci (end_marker nm) (end_marker nm @ s)"
    by (rule starts_with_ci_self)
  ultimately show ?thesis by (simp add: env_markers_def begin_marker_def end_marker_def b_e)
qed

lemma bsl_env_markers: "bsl_markers (env_markers nm)"
  by (simp add: bsl_markers_def env_markers_def begin_marker_def end_marker_def)

lemma balanced_block_nested:
  assumes "bsl \<notin> set a" "bsl \<notin> set b" "bsl \<notin> set c"
  shows "balanced_block (env_markers nm)
           (pre @ a @ begin_marker nm @ b @ end_marker nm @ c @ end_marker nm @ rest) (length pre) =
         (a @ begin_marker nm @ b @ end_marker nm @ c,
          length (pre @ a @ begin_marker nm @ b @ end_marker nm @ c @ end_marker nm))"
proof -
  let ?ms = "env_markers nm"
  have ne: "begin_marker nm \<noteq> []" "end_marker nm \<noteq> []"
    by (simp_all add: begin_marker_def end_marker_def)
  have "balance ?ms 1 0 (a @ begin_marker nm @ b @ end_marker nm @ c @ end_marker nm @ rest) (length pre)
      = Some (length (pre @ a @ begin_marker nm @ b @ end_marker nm @ c),
              length (pre @ a @ begin_marker nm @ b @ end_marker nm @ c @ end_marker nm))"
    using assms
    by (simp add: balance_plain [OF bsl_env_markers]
        balance_marker [OF marker_at_begin ne(1)] balance_marker [OF marker_at_end ne(2)] add.assoc)
  then show ?thesis
    by (simp add: balanced_block_def slice_def)
qed

lemma marker_at_first_some:
  "marker_at ms s =
     first_some (\<lambda>(w, b). if starts_with_ci w s then Some (b, length w) else None) ms"
  by (induction ms) auto

lemma paths_alts_lit:
  "vs \<noteq> [] \<Longrightarrow> paths (alts (map lit vs)) = map (\<lambda>v. (v, [])) vs"
proof (induction vs)
  case Nil
  then show ?case by simp
next
  case (Cons v vs)
  then show ?case by (cases vs) (auto simp: paths_lit)
qed

lemma finite_alts_lit: "finite_rx (alts (map lit vs))"
proof (induction vs)
  case Nil
  show ?case by simp
next
  case (Cons v vs)
  then show ?case by (cases vs) (auto simp: finite_lit)
qed

lemma finite_proof_pattern: "finite_rx (proof_pattern_str kw)"
  by (simp add: proof_pattern_str_def finite_lit finite_alts_lit)

lemma paths_proof_pattern:
  "map fst (paths (proof_pattern_str kw)) =
     concat (map (\<lambda>v. [bsl # kw @ ''{'' @ v @ ''*}'', bsl # kw @ ''{'' @ v @ ''}'']) proof_variants)"
  by (simp add: proof_pattern_str_def paths_lit paths_alts_lit proof_variants_def shift_def)

lemma first_some_length:
  "map_option snd (first_some (try_path g s (\<lambda>g' s'. Some (g', length s - length s'))) ps) =
   first_some (\<lambda>w. if starts_with_ci w s then Some (length w) else None) (map fst ps)"
proof (induction ps)
  case Nil
  show ?case by simp
next
  case (Cons p ps)
  obtain w gs where p: "p = (w, gs)" by (cases p)
  show ?case using Cons unfolding p by (simp add: try_path_final)
qed

lemma proof_pattern_first_begin:
  "map_option snd (rx_first True (proof_pattern_str ''begin'') s) =
   map_option snd (marker_at proof_begin_markers s)"
  unfolding rx_first_def rx_m_paths [OF finite_proof_pattern] first_some_length
    paths_proof_pattern marker_at_first_some
  by (simp add: proof_begin_markers_def proof_variants_def begin_marker_def)

lemma proof_pattern_first_end:
  "map_option snd (rx_first True (proof_pattern_str ''end'') s) =
   map_option snd (marker_at proof_end_markers s)"
  unfolding rx_first_def rx_m_paths [OF finite_proof_pattern] first_some_length
    paths_proof_pattern marker_at_first_some
  by (simp add: proof_end_markers_def proof_variants_def end_marker_def)


lemma search_from_first_marker:
  assumes "\<And>s. map_option snd (rx_first ic r s) = map_option snd (marker_at ms s)"
    and "nonempty_markers ms"
  shows "map_option (\<lambda>m. (m_start m, m_end m)) (rx_search_from ic r s i) =
         map_option (\<lambda>(j, b, n). (j, j + n)) (first_marker ms s i)"
proof (induction s arbitrary: i)
  case Nil
  have "map_option snd (rx_first ic r []) = map_option snd (marker_at ms [])" by (rule assms)
  then show ?case using marker_at_Nil [OF assms(2)] by (cases "rx_first ic r []") auto
next
  case (Cons c t)
  have "map_option snd (rx_first ic r (c # t)) = map_option snd (marker_at ms (c # t))"
    by (rule assms)
  then show ?case using Cons [of "Suc i"]
    by (cases "rx_first ic r (c # t)"; cases "marker_at ms (c # t)") auto
qed

lemma marker_at_append:
  "marker_at (A @ B) s = (case marker_at A s of Some x \<Rightarrow> Some x | None \<Rightarrow> marker_at B s)"
  by (induction A) auto

lemma first_marker_ge: "first_marker ms s i = Some (j, b, n) \<Longrightarrow> i \<le> j"
proof (induction s arbitrary: i)
  case Nil
  then show ?case by simp
next
  case (Cons c t)
  then show ?case
    by (cases "marker_at ms (c # t)") (auto dest: Suc_leD)
qed

lemma first_marker_append:
  "first_marker (A @ B) s i =
     (case (first_marker A s i, first_marker B s i) of
        (Some (ja, ba, na), Some (jb, bb, nb)) \<Rightarrow>
           if jb < ja then Some (jb, bb, nb) else Some (ja, ba, na)
      | (Some a, None) \<Rightarrow> Some a
      | (None, Some b) \<Rightarrow> Some b
      | (None, None) \<Rightarrow> None)"
proof (induction s arbitrary: i)
  case Nil
  show ?case by simp
next
  case (Cons c t)
  show ?case
  proof (cases "marker_at A (c # t)")
    case (Some a)
    obtain ba na where a: "a = (ba, na)" by (cases a)
    show ?thesis
    proof (cases "first_marker B (c # t) i")
      case None
      with Some a show ?thesis by (simp add: marker_at_append)
    next
      case B: (Some b)
      obtain jb bb nb where b: "b = (jb, bb, nb)" by (cases b)
      from first_marker_ge [OF B [unfolded b]] have "\<not> jb < i" by simp
      with Some a B b show ?thesis by (simp add: marker_at_append)
    qed
  next
    case None
    show ?thesis
    proof (cases "marker_at B (c # t)")
      case B: (Some b)
      obtain bb nb where b: "b = (bb, nb)" by (cases b)
      show ?thesis
      proof (cases "first_marker A t (Suc i)")
        case N: None
        with None B b show ?thesis by (simp add: marker_at_append)
      next
        case (Some a)
        obtain ja ba na where a: "a = (ja, ba, na)" by (cases a)
        from first_marker_ge [OF Some [unfolded a]] have "i < ja" by simp
        with None B b Some a show ?thesis by (simp add: marker_at_append)
      qed
    next
      case B: None
      with None Cons [of "Suc i"] show ?thesis by (simp add: marker_at_append)
    qed
  qed
qed

lemma first_marker_flag:
  "first_marker ms s i = Some (j, b, n) \<Longrightarrow> \<exists>w. (w, b) \<in> set ms"
proof (induction s arbitrary: i)
  case Nil
  then show ?case by simp
next
  case (Cons c t)
  then show ?case
    by (cases "marker_at ms (c # t)") (auto dest: marker_at_SomeD)
qed

lemma proof_begin_flag: "first_marker proof_begin_markers s i = Some (j, b, n) \<Longrightarrow> b"
  by (drule first_marker_flag) (auto simp: proof_begin_markers_def)

lemma proof_end_flag: "first_marker proof_end_markers s i = Some (j, b, n) \<Longrightarrow> \<not> b"
  by (drule first_marker_flag) (auto simp: proof_end_markers_def)

lemma nonempty_proof_markers:
  "nonempty_markers proof_markers" "nonempty_markers proof_begin_markers"
  "nonempty_markers proof_end_markers"
  by (simp_all add: nonempty_markers_def proof_markers_def proof_end_markers_def
      proof_begin_markers_def proof_variants_def begin_marker_def end_marker_def)


lemma proof_search:
  assumes "pos \<le> length text"
  shows "map_option (\<lambda>m. (m_start m, m_end m))
           (rx_search True (proof_start_pattern (init c)) text pos) =
         map_option (\<lambda>(j, b, n). (j, j + n)) (first_marker proof_begin_markers (drop pos text) pos)"
    and "map_option (\<lambda>m. (m_start m, m_end m))
           (rx_search True (proof_end_pattern (init c)) text pos) =
         map_option (\<lambda>(j, b, n). (j, j + n)) (first_marker proof_end_markers (drop pos text) pos)"
  using assms
  by (simp_all add: rx_search_def min_def init_def
      search_from_first_marker [OF proof_pattern_first_begin nonempty_proof_markers(2)]
      search_from_first_marker [OF proof_pattern_first_end nonempty_proof_markers(3)])

lemma extract_proof_loop_step:
  assumes "0 < depth" "pos < length text"
  shows "extract_proof_loop (init c) text pcs depth pos =
     (case first_marker proof_markers (drop pos text) pos of
        None \<Rightarrow> Some (drop pcs text, length text)
      | Some (j, b, n) \<Rightarrow>
          if b then extract_proof_loop (init c) text pcs (depth + 1) (j + n)
          else if depth - 1 = 0 then Some (slice text pcs j, j + n)
          else extract_proof_loop (init c) text pcs (depth - 1) (j + n))"
proof -
  let ?bm = "rx_search True (proof_start_pattern (init c)) text pos"
  let ?em = "rx_search True (proof_end_pattern (init c)) text pos"
  let ?fb = "first_marker proof_begin_markers (drop pos text) pos"
  let ?fe = "first_marker proof_end_markers (drop pos text) pos"
  from assms(2) have le: "pos \<le> length text" by simp
  note ps = proof_search [OF le, of c]
  show ?thesis
  proof (cases ?fb)
    case bN: None
    with ps(1) have bm: "?bm = None" by simp
    show ?thesis
    proof (cases ?fe)
      case eN: None
      with ps(2) have em: "?em = None" by simp
      show ?thesis using assms bN eN
        by (subst extract_proof_loop.simps)
           (simp add: bm em proof_markers_def first_marker_append)
    next
      case (Some a)
      obtain je be ne where a: "a = (je, be, ne)" by (cases a)
      from ps(2) Some a obtain e where em: "?em = Some e" "m_start e = je" "m_end e = je + ne"
        by auto
      from proof_end_flag [OF Some [unfolded a]] have "\<not> be" .
      then show ?thesis using assms bN Some a
        by (subst extract_proof_loop.simps)
           (simp add: bm em proof_markers_def first_marker_append)
    qed
  next
    case bS: (Some b')
    obtain jb bb nb where b': "b' = (jb, bb, nb)" by (cases b')
    from ps(1) bS b' obtain b where bm: "?bm = Some b" "m_start b = jb" "m_end b = jb + nb"
      by auto
    from proof_begin_flag [OF bS [unfolded b']] have bb: "bb" .
    show ?thesis
    proof (cases ?fe)
      case eN: None
      with ps(2) have em: "?em = None" by simp
      show ?thesis using assms bS b' eN bb
        by (subst extract_proof_loop.simps)
           (simp add: bm em proof_markers_def first_marker_append)
    next
      case (Some a)
      obtain je be ne where a: "a = (je, be, ne)" by (cases a)
      from ps(2) Some a obtain e where em: "?em = Some e" "m_start e = je" "m_end e = je + ne"
        by auto
      from proof_end_flag [OF Some [unfolded a]] have "\<not> be" .
      then show ?thesis using assms bS b' Some a bb
        by (subst extract_proof_loop.simps)
           (simp add: bm em proof_markers_def first_marker_append)
    qed
  qed
qed

lemma extract_proof_loop_balance:
  assumes "0 < depth" "pos \<le> length text"
  shows "extract_proof_loop (init c) text pcs depth pos =
         Some (case balance proof_markers depth 0 (drop pos text) pos of
                 Some (j, e) \<Rightarrow> (slice text pcs j, e)
               | None \<Rightarrow> (drop pcs text, length text))"
  using assms
proof (induction "length text - pos" arbitrary: pos depth rule: less_induct)
  case less
  show ?case
  proof (cases "pos < length text")
    case False
    with less.prems have "drop pos text = []" by simp
    with False show ?thesis by (subst extract_proof_loop.simps) simp
  next
    case True
    note step = extract_proof_loop_step [OF less.prems(1) True, of c pcs]
    note bal = balance_first_marker [OF nonempty_proof_markers(1), where d = depth
        and s = "drop pos text" and i = pos]
    show ?thesis
    proof (cases "first_marker proof_markers (drop pos text) pos")
      case None
      then show ?thesis unfolding step bal by simp
    next
      case (Some a)
      obtain j b n where a: "a = (j, b, n)" by (cases a)
      from first_marker_SomeD [OF Some [unfolded a] nonempty_proof_markers(1)] have
        bounds: "pos \<le> j" "j + n \<le> length text" "1 \<le> n"
        using True by auto
      have dr: "j - pos + n + pos = j + n" using bounds by simp
      have rec: "extract_proof_loop (init c) text pcs d (j + n) =
         Some (case balance proof_markers d 0 (drop (j + n) text) (j + n) of
                 Some (j, e) \<Rightarrow> (slice text pcs j, e)
               | None \<Rightarrow> (drop pcs text, length text))" if "0 < d" for d
        using bounds True that by (intro less.hyps) auto
      show ?thesis
      proof (cases b)
        case True
        have "0 < depth + 1" using less.prems(1) by simp
        from rec [OF this] show ?thesis unfolding step bal Some a using True by (simp add: dr)
      next
        case False
        show ?thesis
        proof (cases "depth - 1 = 0")
          case d0: True
          show ?thesis unfolding step bal Some a using False d0 by simp
        next
          case d1: False
          then have "0 < depth - 1" using less.prems(1) by simp
          from rec [OF this] show ?thesis unfolding step bal Some a using False d1
            by (simp add: dr)
        qed
      qed
    qed
  qed
qed


lemma strip_Nil_iff: "strip s = [] \<longleftrightarrow> list_all isspace s"
proof
  assume "list_all isspace s"
  then have e: "dropWhile isspace s = []" by (induction s) auto
  show "strip s = []" unfolding strip_def lstrip_def rstrip_def e by simp
next
  assume a: "strip s = []"
  show "list_all isspace s"
  proof (cases "dropWhile isspace s")
    case Nil
    then show ?thesis by (simp add: list_all_iff)
  next
    case (Cons x xs)
    then have "\<not> isspace x" using hd_dropWhile [of isspace s] by auto
    moreover from a Cons have "\<forall>y\<in>set (x # xs). isspace y"
      by (simp add: strip_def lstrip_def rstrip_def)
    ultimately show ?thesis by simp
  qed
qed

lemma extract_proof_eq:
  "extract_proof (init c) text start_pos =
     Some (case first_marker proof_begin_markers (drop start_pos text) 0 of
             None \<Rightarrow> None
           | Some (j, b, n) \<Rightarrow>
               if list_all isspace (take j (drop start_pos text))
               then Some (balanced_block proof_markers text (start_pos + (j + n)))
               else None)"
proof -
  let ?rem = "drop start_pos text"
  let ?bm = "rx_search True (proof_start_pattern (init c)) ?rem 0"
  have ps: "map_option (\<lambda>m. (m_start m, m_end m)) ?bm =
            map_option (\<lambda>(j, b, n). (j, j + n)) (first_marker proof_begin_markers ?rem 0)"
    using proof_search(1) [of 0 ?rem c] by simp
  show ?thesis
  proof (cases "first_marker proof_begin_markers ?rem 0")
    case None
    with ps have "?bm = None" by simp
    with None show ?thesis by (simp add: extract_proof_def)
  next
    case (Some a)
    obtain j b n where a: "a = (j, b, n)" by (cases a)
    from ps Some a obtain m where m: "?bm = Some m" "m_start m = j" "m_end m = j + n" by auto
    from first_marker_SomeD [OF Some [unfolded a] nonempty_proof_markers(2)]
    have "j + n \<le> length ?rem" "1 \<le> n" by simp_all
    then have le: "start_pos + (j + n) \<le> length text" by simp
    show ?thesis using Some a m
      by (simp add: extract_proof_def strip_Nil_iff balanced_block_def Let_def
          extract_proof_loop_balance [OF _ le])
  qed
qed

lemma clash_not_prefix: "clash e w \<Longrightarrow> \<not> starts_with_ci e (w @ s)"
  by (induction e w rule: clash.induct) auto

lemma starts_with_ci_extend: "starts_with_ci e w \<Longrightarrow> starts_with_ci e (w @ s)"
  by (induction e w rule: starts_with_ci.induct) auto

lemma marker_at_extend:
  "settled ms w \<Longrightarrow> marker_at ms (w @ s) = marker_at ms w"
proof (induction ms)
  case Nil
  show ?case by simp
next
  case (Cons m ms)
  obtain e b where m: "m = (e, b)" by (cases m)
  from Cons.prems have s: "settled ms w" and d: "starts_with_ci e w \<or> clash e w"
    by (simp_all add: settled_def m)
  show ?case
  proof (cases "starts_with_ci e w")
    case True
    then show ?thesis by (simp add: m starts_with_ci_extend)
  next
    case False
    with d have "clash e w" by simp
    then have "\<not> starts_with_ci e (w @ s)" by (rule clash_not_prefix)
    with False Cons.IH [OF s] show ?thesis by (simp add: m)
  qed
qed

lemma proof_markers_closed:
  "list_all (\<lambda>v.
      marker_at proof_markers (begin_marker v) = Some (True, length (begin_marker v))
    \<and> marker_at proof_begin_markers (begin_marker v) = Some (True, length (begin_marker v))
    \<and> marker_at proof_markers (end_marker v) = Some (False, length (end_marker v))
    \<and> settled proof_markers (begin_marker v)
    \<and> settled proof_begin_markers (begin_marker v)
    \<and> settled proof_markers (end_marker v)) proof_variants"
  by code_simp

lemma proof_variant_markers:
  assumes "v \<in> set proof_variants"
  shows "marker_at proof_markers (begin_marker v @ s) = Some (True, length (begin_marker v))"
    and "marker_at proof_begin_markers (begin_marker v @ s) = Some (True, length (begin_marker v))"
    and "marker_at proof_markers (end_marker v @ s) = Some (False, length (end_marker v))"
  using proof_markers_closed assms by (auto simp: list_all_iff marker_at_extend)

lemma bsl_proof_markers: "bsl_markers proof_markers"
  by (simp add: bsl_markers_def proof_markers_def proof_end_markers_def proof_begin_markers_def
      proof_variants_def begin_marker_def end_marker_def)

lemma extract_proof_synonyms:
  assumes "v \<in> set proof_variants" "v' \<in> set proof_variants" "bsl \<notin> set a"
  shows "extract_proof (init c) (pre @ begin_marker v @ a @ end_marker v' @ rest) (length pre) =
         Some (Some (a, length (pre @ begin_marker v @ a @ end_marker v')))"
proof -
  let ?text = "pre @ begin_marker v @ a @ end_marker v' @ rest"
  let ?n = "length (begin_marker v)"
  have bm: "begin_marker v = bsl # tl (begin_marker v)" by (simp add: begin_marker_def)
  have "first_marker proof_begin_markers (begin_marker v @ a @ end_marker v' @ rest) 0 =
        Some (0, True, ?n)"
    by (subst bm, subst append_Cons, subst first_marker.simps, subst append_Cons [symmetric],
        subst bm [symmetric]) (simp add: proof_variant_markers(2) [OF assms(1)])
  then have fm: "first_marker proof_begin_markers (drop (length pre) ?text) 0 = Some (0, True, ?n)"
    by simp
  have ne: "end_marker v' \<noteq> []" by (simp add: end_marker_def)
  have "balance proof_markers 1 0 (a @ end_marker v' @ rest) (length pre + ?n) =
        Some (length pre + ?n + length a, length pre + ?n + length a + length (end_marker v'))"
    using assms(3)
    by (simp add: balance_plain [OF bsl_proof_markers]
        balance_marker [OF proof_variant_markers(3) [OF assms(2)] ne])
  then have "balanced_block proof_markers ?text (length pre + (0 + ?n)) =
             (a, length (pre @ begin_marker v @ a @ end_marker v'))"
    by (simp add: balanced_block_def slice_def add.assoc)
  then show ?thesis unfolding extract_proof_eq fm by simp
qed

lemma min_len_lit: "min_len (lit w) = length w"
  by (induction w) auto

lemma must_lit: "must (lit w) = {}"
  by (induction w) auto

lemma rx_search_from_SomeD:
  assumes "rx_search_from ic r s i = Some m"
  shows "i \<le> m_start m \<and> m_start m + min_len r \<le> m_end m \<and> m_end m \<le> i + length s
         \<and> (\<forall>n\<in>must r. group m n \<noteq> None)"
  using assms
proof (induction s arbitrary: i)
  case Nil
  then obtain g n where f: "rx_first ic r [] = Some (g, n)"
    and m: "m = \<lparr>m_start = i, m_end = i + n, m_groups = g\<rparr>"
    by (auto split: option.splits)
  from rx_first_SomeD [OF f] show ?case by (simp add: m group_def)
next
  case (Cons c t)
  show ?case
  proof (cases "rx_first ic r (c # t)")
    case None
    with Cons.prems have "rx_search_from ic r t (Suc i) = Some m" by simp
    from Cons.IH [OF this] show ?thesis by auto
  next
    case (Some a)
    obtain g n where a: "a = (g, n)" by (cases a)
    with Some Cons.prems have m: "m = \<lparr>m_start = i, m_end = i + n, m_groups = g\<rparr>" by simp
    from rx_first_SomeD [OF Some [unfolded a]] show ?thesis by (simp add: m group_def)
  qed
qed

lemma rx_search_SomeD:
  assumes "rx_search ic r text pos = Some m"
  shows "min pos (length text) \<le> m_start m" "m_start m + min_len r \<le> m_end m"
    "m_end m \<le> length text" "\<forall>n\<in>must r. group m n \<noteq> None"
  using rx_search_from_SomeD [of ic r "drop (min pos (length text)) text" "min pos (length text)" m]
    assms by (auto simp: rx_search_def Let_def)

lemma rx_match_SomeD:
  assumes "rx_match ic r text = Some m"
  shows "m_end m \<le> length text" "\<forall>n\<in>must r. group m n \<noteq> None"
proof -
  from assms obtain g n where f: "rx_first ic r text = Some (g, n)"
    and m: "m = \<lparr>m_start = 0, m_end = n, m_groups = g\<rparr>"
    by (auto simp: rx_match_def split: option.splits)
  from rx_first_SomeD [OF f] show "m_end m \<le> length text" "\<forall>n\<in>must r. group m n \<noteq> None"
    by (simp_all add: m group_def)
qed

lemma rx_finditer_from_groups:
  "m \<in> set (rx_finditer_from ic r k s i) \<Longrightarrow> \<forall>n\<in>must r. group m n \<noteq> None"
proof (induction ic r k s i rule: rx_finditer_from.induct)
  case (1 ic r k i)
  then show ?case by simp
next
  case (2 ic r k c s i)
  then show ?case by simp
next
  case (3 ic r c s i)
  show ?case
  proof (cases "rx_first ic r (c # s)")
    case None
    with 3 show ?thesis by simp
  next
    case (Some a)
    obtain g n where a: "a = (g, n)" by (cases a)
    from "3.prems" Some a have
      "m = \<lparr>m_start = i, m_end = i + n, m_groups = g\<rparr> \<or> m \<in> set (rx_finditer_from ic r (n - 1) s (Suc i))"
      by simp
    then show ?thesis
    proof
      assume "m = \<lparr>m_start = i, m_end = i + n, m_groups = g\<rparr>"
      with rx_first_SomeD(3) [OF Some [unfolded a]] show ?thesis by (simp add: group_def)
    next
      assume "m \<in> set (rx_finditer_from ic r (n - 1) s (Suc i))"
      with "3.IH"(2) [OF Some a [symmetric]] show ?thesis by simp
    qed
  qed
qed

lemma collect_references_total:
  "\<forall>m\<in>set ms. group m 1 \<noteq> None \<Longrightarrow> \<exists>rs. collect_references ms refs = Inr rs"
  by (induction ms arbitrary: refs) (auto simp: Let_def)

lemma collect_newtheorem_total:
  "\<forall>m\<in>set ms. group m 1 \<noteq> None \<Longrightarrow> \<exists>rs. collect_newtheorem ms refs = Inr rs"
  by (induction ms arbitrary: refs) (auto simp: Let_def)

lemma collect_theoremstyle_total:
  "\<forall>m\<in>set ms. group m 1 \<noteq> None \<Longrightarrow> \<exists>rs. collect_theoremstyle ms refs = Inr rs"
  by (induction ms arbitrary: refs) (auto simp: Let_def)

lemma extract_references_total: "\<exists>rs. extract_references text = Inr rs"
proof -
  have "1 \<in> must ref_pattern" by (simp add: ref_pattern_def)
  then have "\<forall>m\<in>set (rx_finditer False ref_pattern text). group m 1 \<noteq> None"
    unfolding rx_finditer_def using rx_finditer_from_groups by blast
  then show ?thesis unfolding extract_references_def by (rule collect_references_total)
qed

lemma detect_custom_environments_total: "\<exists>cs. detect_custom_environments text = Inr cs"
proof -
  have "1 \<in> must newtheorem_pattern" by (simp add: newtheorem_pattern_def)
  then have "\<forall>m\<in>set (rx_finditer False newtheorem_pattern text). group m 1 \<noteq> None"
    unfolding rx_finditer_def using rx_finditer_from_groups by blast
  from collect_newtheorem_total [OF this] obtain cs where
    1: "collect_newtheorem (rx_finditer False newtheorem_pattern text) [] = Inr cs" by blast
  have "1 \<in> must theoremstyle_pattern" by (simp add: theoremstyle_pattern_def)
  then have "\<forall>m\<in>set (rx_finditer False theoremstyle_pattern text). group m 1 \<noteq> None"
    unfolding rx_finditer_def using rx_finditer_from_groups by blast
  from collect_theoremstyle_total [OF this] obtain cs' where
    "collect_theoremstyle (rx_finditer False theoremstyle_pattern text) cs = Inr cs'" by blast
  with 1 show ?thesis by (simp add: detect_custom_environments_def)
qed

lemma extract_label_total:
  "\<exists>l p. extract_label text start_pos = Inr (l, p) \<and> start_pos \<le> p
     \<and> (start_pos \<le> length text \<longrightarrow> p \<le> length text)"
proof (cases "rx_match False label_pattern (slice text start_pos (start_pos + 200))")
  case None
  then show ?thesis by (simp add: extract_label_def)
next
  case (Some m)
  have "1 \<in> must label_pattern" by (simp add: label_pattern_def)
  with rx_match_SomeD [OF Some] obtain t where t: "group m 1 = Some t"
    and e: "m_end m \<le> length (slice text start_pos (start_pos + 200))" by auto
  have "length (slice text start_pos (start_pos + 200)) \<le> length text - start_pos"
    by (simp add: slice_def)
  with e Some t show ?thesis by (auto simp: extract_label_def)
qed

lemma balance_bounds:
  "nonempty_markers ms \<Longrightarrow> balance ms d k s i = Some (j, e) \<Longrightarrow>
   i \<le> j \<and> j < e \<and> e \<le> i + length s"
proof (induction ms d k s i rule: balance.induct)
  case (1 ms depth k i)
  then show ?case by simp
next
  case (2 ms depth k c s i)
  then show ?case by auto
next
  case (3 ms depth c s i)
  note ne = "3.prems"(1)
  show ?case
  proof (cases "marker_at ms (c # s)")
    case None
    with 3 show ?thesis by auto
  next
    case (Some a)
    obtain b n where a: "a = (b, n)" by (cases a)
    from marker_at_bounds [OF Some [unfolded a] ne]
    have n: "1 \<le> n" "n \<le> length (c # s)" by auto
    show ?thesis
    proof (cases b)
      case True
      with "3.prems" Some a have "balance ms (depth + 1) (n - 1) s (Suc i) = Some (j, e)" by simp
      from "3.IH"(2) [OF Some a [symmetric] True ne this] show ?thesis by auto
    next
      case False
      show ?thesis
      proof (cases "depth - 1 = 0")
        case True
        with "3.prems" Some a False n show ?thesis by auto
      next
        case d: False
        with "3.prems" Some a False
        have "balance ms (depth - 1) (n - 1) s (Suc i) = Some (j, e)" by simp
        from "3.IH"(3) [OF Some a [symmetric] False d ne this] show ?thesis by auto
      qed
    qed
  qed
qed

lemma balanced_block_bounds:
  assumes "nonempty_markers ms" "start \<le> length text"
  shows "start \<le> snd (balanced_block ms text start)"
    "snd (balanced_block ms text start) \<le> length text"
proof -
  show "start \<le> snd (balanced_block ms text start)"
    using assms balance_bounds [OF assms(1), of 1 0 "drop start text" start]
    by (auto simp: balanced_block_def split: option.splits)
  show "snd (balanced_block ms text start) \<le> length text"
    using assms balance_bounds [OF assms(1), of 1 0 "drop start text" start]
    by (auto simp: balanced_block_def split: option.splits)
qed

lemma dropWhile_id: "xs = [] \<or> \<not> P (hd xs) \<Longrightarrow> dropWhile P xs = xs"
  by (cases xs) auto

lemma strip_strip: "strip (strip s) = strip s"
proof -
  let ?t = "dropWhile isspace s"
  let ?u = "rev (dropWhile isspace (rev ?t))"
  have u: "strip s = ?u" by (simp add: strip_def lstrip_def rstrip_def)
  show ?thesis
  proof (cases "?u = []")
    case True
    with u have e: "strip s = []" by simp
    show ?thesis unfolding e by (simp add: strip_def lstrip_def rstrip_def)
  next
    case False
    then have d: "dropWhile isspace (rev ?t) \<noteq> []" by simp
    then have t: "?t \<noteq> []" by (metis dropWhile.simps(1) rev.simps(1))
    have "?t = ?u @ rev (takeWhile isspace (rev ?t))"
      by (metis rev_append rev_rev_ident takeWhile_dropWhile_id)
    then have "hd ?t = hd ?u" using False by (metis hd_append2)
    moreover have "\<not> isspace (hd ?t)" using t by (rule hd_dropWhile)
    ultimately have h: "\<not> isspace (hd ?u)" by simp
    have l: "\<not> isspace (hd (rev ?u))" using d hd_dropWhile [of isspace "rev ?t"] by simp
    have ls: "lstrip ?u = ?u" unfolding lstrip_def using h by (intro dropWhile_id) simp
    have rs: "rstrip ?u = ?u" unfolding rstrip_def
      using l dropWhile_id [of "rev ?u" isspace] by simp
    have "strip ?u = ?u" unfolding strip_def ls rs ..
    then show ?thesis unfolding u .
  qed
qed

lemma strip_clean_content: "strip (clean_content x) = clean_content x"
  by (simp add: clean_content_def Let_def strip_strip)

lemma must_env_pattern: "1 \<in> must (env_pattern (init c))"
  by (simp add: init_def env_pattern_str_def)

lemma min_len_env_pattern: "1 \<le> min_len (env_pattern (init c))"
  by (simp add: init_def env_pattern_str_def)

lemma read_statement_cases:
  "(rx_search True (env_pattern (init c)) text pos = None
      \<and> read_statement (init c) text pos = Some (Inr None))
   \<or> (\<exists>m raw l cs. rx_search True (env_pattern (init c)) text pos = Some m
        \<and> group m 1 = Some raw \<and> extract_label text (m_end m) = Inr (l, cs)
        \<and> read_statement (init c) text pos =
            Some (Inr (Some \<lparr>s_type = normalize_env_type raw, s_label = l, s_title = title_of m,
               s_content = fst (balanced_block (env_markers (rstrip_star raw)) text cs),
               s_content_end = snd (balanced_block (env_markers (rstrip_star raw)) text cs)\<rparr>))
        \<and> pos < snd (balanced_block (env_markers (rstrip_star raw)) text cs)
        \<and> snd (balanced_block (env_markers (rstrip_star raw)) text cs) \<le> length text)"
proof (cases "rx_search True (env_pattern (init c)) text pos")
  case None
  then show ?thesis by (simp add: read_statement_def)
next
  case (Some m)
  from rx_search_SomeD [OF Some] must_env_pattern [of c] min_len_env_pattern [of c]
  obtain raw where raw: "group m 1 = Some raw"
    and b: "min pos (length text) \<le> m_start m" "m_start m < m_end m" "m_end m \<le> length text"
    by fastforce
  from extract_label_total [of "text" "m_end m"] b(3) obtain l cs where
    l: "extract_label text (m_end m) = Inr (l, cs)" "m_end m \<le> cs" "cs \<le> length text" by auto
  let ?bb = "balanced_block (env_markers (rstrip_star raw)) text cs"
  from balanced_block_bounds [OF nonempty_env_markers l(3)]
  have bb: "cs \<le> snd ?bb" "snd ?bb \<le> length text" by auto
  from b have "pos < m_end m" by (auto simp: min_def split: if_splits)
  with l(2) bb(1) have "pos < snd ?bb" by simp
  moreover have raw': "group m (Suc 0) = Some raw" using raw by simp
  have "read_statement (init c) text pos =
            Some (Inr (Some \<lparr>s_type = normalize_env_type raw, s_label = l, s_title = title_of m,
               s_content = fst ?bb, s_content_end = snd ?bb\<rparr>))"
    by (simp add: read_statement_def Some raw' l(1) extract_environment_balanced
        case_prod_unfold)
  ultimately show ?thesis using Some raw l(1) bb(2) by blast
qed

lemma extract_proof_cases:
  assumes "ce \<le> length text"
  shows "extract_proof (init c) text ce = Some None
       \<or> (\<exists>pc pe. extract_proof (init c) text ce = Some (Some (pc, pe))
            \<and> ce < pe \<and> pe \<le> length text)"
proof (cases "first_marker proof_begin_markers (drop ce text) 0")
  case None
  then show ?thesis by (simp add: extract_proof_eq)
next
  case (Some a)
  obtain j b n where a: "a = (j, b, n)" by (cases a)
  from first_marker_SomeD [OF Some [unfolded a] nonempty_proof_markers(2)]
  have n: "j + n \<le> length (drop ce text)" "1 \<le> n" by simp_all
  then have le: "ce + (j + n) \<le> length text" using assms by simp
  let ?bb = "balanced_block proof_markers text (ce + (j + n))"
  from balanced_block_bounds [OF nonempty_proof_markers(1) le]
  have "ce + (j + n) \<le> snd ?bb" "snd ?bb \<le> length text" by auto
  with n(2) have "ce < snd ?bb" "snd ?bb \<le> length text" by simp_all
  then show ?thesis using Some a
    by (cases ?bb) (auto simp: extract_proof_eq)
qed

lemma extract_proof_proof_after: "extract_proof (init c) text ce = Some (proof_after text ce)"
  by (simp add: extract_proof_eq proof_after_def)

lemma extract_references_refs_of: "extract_references text = Inr (refs_of text)"
  using extract_references_total [of "text"] by (auto simp: refs_of_def)

lemma walk_step_stop:
  "read_statement (init c) text pos = Some (Inr None) \<Longrightarrow>
   walk_step (init c) text pos = Some (Inr Stop)"
  by (simp add: walk_step_def)

lemma walk_step_statement:
  "read_statement (init c) text pos = Some (Inr (Some st)) \<Longrightarrow>
   walk_step (init c) text pos = Some (Inr (step_of text st))"
  by (cases "proof_after text (s_content_end st)")
     (auto simp: walk_step_def step_of_def Let_def strip_clean_content
        extract_references_refs_of extract_proof_proof_after)

lemma proof_after_bounds:
  assumes "ce \<le> length text" "proof_after text ce = Some (pc, pe)"
  shows "ce < pe" "pe \<le> length text"
  using extract_proof_cases [OF assms(1), of c] assms(2)
  by (auto simp: extract_proof_proof_after)

lemma step_of_advances:
  assumes "pos < s_content_end st" "s_content_end st \<le> length text"
  shows "advances pos (length text) (step_of text st)"
proof (cases "proof_after text (s_content_end st)")
  case None
  with assms show ?thesis by (simp add: step_of_def advances_def Let_def)
next
  case (Some a)
  obtain pc pe where a: "a = (pc, pe)" by (cases a)
  from proof_after_bounds [OF assms(2) Some [unfolded a]] assms(1)
  have "pos < pe" "pe \<le> length text" by simp_all
  with assms Some a show ?thesis by (simp add: step_of_def advances_def Let_def)
qed

lemma step_of_kept:
  "step_of text st = Emit b n \<Longrightarrow> kept_content b \<and> kept_proof b"
  by (auto simp: step_of_def Let_def kept_content_def kept_proof_def make_block_def
      strip_clean_content split: if_splits option.splits)

lemma walk_step_total:
  "\<exists>s. walk_step (init c) text pos = Some (Inr s) \<and> advances pos (length text) s
     \<and> (\<forall>b n. s = Emit b n \<longrightarrow> kept_content b \<and> kept_proof b)"
proof -
  from read_statement_cases [of c "text" pos]
  consider "read_statement (init c) text pos = Some (Inr None)"
    | st where "read_statement (init c) text pos = Some (Inr (Some st))"
        "pos < s_content_end st" "s_content_end st \<le> length text"
    by force
  then show ?thesis
  proof cases
    case 1
    then show ?thesis by (simp add: walk_step_stop advances_def)
  next
    case 2
    from walk_step_statement [OF 2(1)] step_of_advances [OF 2(2,3)] step_of_kept [of "text" st]
    show ?thesis by auto
  qed
qed

lemma walk_total:
  assumes "list_all Q blocks" "\<And>b. kept_content b \<and> kept_proof b \<Longrightarrow> Q b"
  shows "\<exists>bs. walk (init c) text pos blocks = Some (Inr bs) \<and> list_all Q bs"
  using assms(1)
proof (induction "length text - pos" arbitrary: pos blocks rule: less_induct)
  case less
  show ?case
  proof (cases "pos < length text")
    case False
    with less.prems show ?thesis by (subst walk.simps) simp
  next
    case True
    from walk_step_total [of c "text" pos] obtain s where
      s: "walk_step (init c) text pos = Some (Inr s)" "advances pos (length text) s"
         "\<forall>b n. s = Emit b n \<longrightarrow> kept_content b \<and> kept_proof b" by blast
    show ?thesis
    proof (cases s)
      case Stop
      with s(1) True less.prems show ?thesis by (subst walk.simps) simp
    next
      case (Skip n)
      with s(2) True have "length text - n < length text - pos"
        by (auto simp: advances_def)
      from less.hyps [OF this less.prems] Skip s(1) True show ?thesis
        by (subst walk.simps) simp
    next
      case (Emit b n)
      with s(2) True have "length text - n < length text - pos"
        by (auto simp: advances_def)
      moreover from Emit s(3) assms(2) less.prems have "list_all Q (blocks @ [b])" by simp
      ultimately have "\<exists>bs. walk (init c) text n (blocks @ [b]) = Some (Inr bs) \<and> list_all Q bs"
        by (rule less.hyps)
      with Emit s(1) True show ?thesis by (subst walk.simps) simp
    qed
  qed
qed

lemma parse_text_total:
  assumes "\<And>b. kept_content b \<and> kept_proof b \<Longrightarrow> Q b"
  shows "\<exists>bs c'. parse_text (init c) text auto_detect = Some (Inr (bs, init c')) \<and> list_all Q bs"
proof -
  from detect_custom_environments_total [of "remove_comments text"] obtain cs where
    cs: "detect_custom_environments (remove_comments text) = Inr cs" by blast
  define c' where "c' = (if auto_detect \<and> cs \<noteq> [] then cs else c)"
  from walk_total [of Q "[]" c' "remove_comments text" 0] assms obtain bs where
    "walk (init c') (remove_comments text) 0 [] = Some (Inr bs)" "list_all Q bs" by auto
  then have "parse_text (init c) text auto_detect = Some (Inr (bs, init c'))"
    by (auto simp: parse_text_def cs c'_def Let_def split: if_splits)
  with \<open>list_all Q bs\<close> show ?thesis by blast
qed

lemma walk_stop:
  "read_statement p text 0 = Some (Inr None) \<Longrightarrow> walk p text 0 [] = Some (Inr [])"
  by (subst walk.simps) (simp add: walk_step_def)

lemma starts_with_iff: "starts_with w s \<longleftrightarrow> (\<exists>v. s = w @ v)"
  by (induction w s rule: starts_with.induct) auto

lemma contains_iff: "contains w s \<longleftrightarrow> has_fragment w s"
proof (induction s)
  case Nil
  show ?case by (auto simp: has_fragment_def)
next
  case (Cons c s)
  show ?case
  proof
    assume "contains w (c # s)"
    then consider "starts_with w (c # s)" | "contains w s" by auto
    then show "has_fragment w (c # s)"
    proof cases
      case 1
      then obtain v where "c # s = w @ v" by (auto simp: starts_with_iff)
      then have "c # s = [] @ w @ v" by simp
      then show ?thesis unfolding has_fragment_def by blast
    next
      case 2
      with Cons obtain u v where "s = u @ w @ v" by (auto simp: has_fragment_def)
      then have "c # s = (c # u) @ w @ v" by simp
      then show ?thesis unfolding has_fragment_def by blast
    qed
  next
    assume "has_fragment w (c # s)"
    then obtain u v where uv: "c # s = u @ w @ v" by (auto simp: has_fragment_def)
    show "contains w (c # s)"
    proof (cases u)
      case Nil
      with uv have "starts_with w (c # s)" by (auto simp: starts_with_iff)
      then show ?thesis by simp
    next
      case (Cons d u')
      with uv have "s = u' @ w @ v" by simp
      then have "has_fragment w s" unfolding has_fragment_def by blast
      with Cons.IH show ?thesis by simp
    qed
  qed
qed

lemma lower_char_idem: "lower_char (lower_char c) = lower_char c"
  by (cases c) (simp add: lower_char_bits)

lemma lower_idem: "lower (lower s) = lower s"
  by (simp add: lower_def lower_char_idem)

lemma lower_star: "lower_char CHR ''*'' = CHR ''*''"
  by code_simp

lemma rstrip_star_star: "rstrip_star (s @ ''*'') = rstrip_star s"
  by (simp add: rstrip_star_def)

lemma lower_char_lbracket: "lower_char d = lower_char CHR ''['' \<longleftrightarrow> d = CHR ''[''"
  by (cases d) (auto simp: lower_char_bits split: if_splits)

lemma lower_char_rbracket: "lower_char d = lower_char CHR '']'' \<longleftrightarrow> d = CHR '']''"
  by (cases d) (auto simp: lower_char_bits split: if_splits)

lemma backoff_last:
  "(\<And>u. u < n \<Longrightarrow> k (drop u s) = None) \<Longrightarrow> backoff 0 k s n = k (drop n s)"
proof (induction n)
  case 0
  show ?case by simp
next
  case (Suc n)
  show ?case
  proof (cases "k (drop (Suc n) s)")
    case None
    have "backoff 0 k s n = k (drop n s)" using Suc.prems by (intro Suc.IH) simp
    moreover have "k (drop n s) = None" using Suc.prems by simp
    ultimately show ?thesis using None by simp
  next
    case (Some x)
    then show ?thesis by simp
  qed
qed


lemma title_inner:
  "rx_m (Grp 2 (Many (NotChar CHR '']''))) True g s
      (\<lambda>g' s'. rx_m (Then (Chr CHR '']'') Eps) True g' s' k) =
     (if CHR '']'' \<in> set s
      then k ((2, takeWhile (\<lambda>d. d \<noteq> CHR '']'') s) # g)
             (drop (Suc (length (takeWhile (\<lambda>d. d \<noteq> CHR '']'') s))) s)
      else None)"
proof -
  let ?P = "\<lambda>d. d \<noteq> CHR '']''"
  let ?n = "length (takeWhile ?P s)"
  define K where
    "K = (\<lambda>s'. rx_m (Then (Chr CHR '']'') Eps) True ((2, take (length s - length s') s) # g) s' k)"
  have Kc: "K (e # r) = (if e = CHR '']'' then k ((2, take (length s - Suc (length r)) s) # g) r
                         else None)" for e r
    by (auto simp: K_def chr_eq_def lower_char_rbracket eq_commute [of "lower_char CHR '']''"])
  have Kn: "K [] = None" by (simp add: K_def)
  have P: "in_cset (NotChar CHR '']'') = ?P" by (intro ext) simp
  have lhs: "rx_m (Grp 2 (Many (NotChar CHR '']''))) True g s
      (\<lambda>g' s'. rx_m (Then (Chr CHR '']'') Eps) True g' s' k) = backoff 0 K s ?n"
    unfolding K_def rx_m.simps(8) rx_m.simps(3) P ..
  have n: "?n \<le> length s" by (rule length_takeWhile_le)
  have low: "K (drop u s) = None" if "u < ?n" for u
  proof -
    from that n have u: "u < length s" by simp
    from that have "takeWhile ?P s ! u \<in> set (takeWhile ?P s)" by (rule nth_mem)
    then have "?P (takeWhile ?P s ! u)" by (auto dest: set_takeWhileD)
    moreover have "takeWhile ?P s ! u = s ! u" using that by (rule takeWhile_nth)
    ultimately have ne: "s ! u \<noteq> CHR '']''" by simp
    from u have "drop u s = s ! u # drop (Suc u) s" by (simp add: Cons_nth_drop_Suc)
    then show ?thesis using ne by (simp add: Kc)
  qed
  have top: "K (drop ?n s) =
     (if CHR '']'' \<in> set s then k ((2, takeWhile ?P s) # g) (drop (Suc ?n) s) else None)"
  proof (cases "CHR '']'' \<in> set s")
    case False
    have "drop ?n s = dropWhile ?P s" by (rule dropWhile_eq_drop [symmetric])
    also have "\<dots> = []" using False by (auto simp: dropWhile_eq_Nil_conv)
    finally have "drop ?n s = []" .
    then show ?thesis using False by (simp only: Kn if_False)
  next
    case True
    have d: "drop ?n s = dropWhile ?P s" by (rule dropWhile_eq_drop [symmetric])
    from True have "dropWhile ?P s \<noteq> []" by (auto simp: dropWhile_eq_Nil_conv)
    then obtain e r where er: "dropWhile ?P s = e # r" by (cases "dropWhile ?P s") auto
    have "\<not> ?P (hd (dropWhile ?P s))" using \<open>dropWhile ?P s \<noteq> []\<close> by (rule hd_dropWhile)
    then have e: "e = CHR '']''" unfolding er by simp
    have "drop (Suc ?n) s = tl (drop ?n s)" by (simp add: drop_Suc tl_drop)
    then have r: "drop (Suc ?n) s = r" unfolding d er by simp
    have "length s = length (takeWhile ?P s @ dropWhile ?P s)"
      by (simp only: takeWhile_dropWhile_id)
    then have "length s = ?n + length (dropWhile ?P s)" by (simp only: length_append)
    then have "length s - Suc (length r) = ?n" unfolding er by simp
    moreover have "takeWhile ?P s = take ?n s" by (rule takeWhile_eq_take)
    ultimately have t: "take (length s - Suc (length r)) s = takeWhile ?P s" by simp
    show ?thesis unfolding d er Kc r using True e t by simp
  qed
  have "backoff 0 K s ?n = K (drop ?n s)" by (rule backoff_last) (rule low)
  then show ?thesis unfolding lhs top by (rule trans) (rule refl)
qed


lemma title_m:
  "rx_m title_pattern True g s k =
     (case bracketed s of
        Some t \<Rightarrow>
          (case k ((2, t) # g) (drop (length t + 2) s) of Some x \<Rightarrow> Some x | None \<Rightarrow> k g s)
      | None \<Rightarrow> k g s)"
proof -
  let ?inner = "\<lambda>s1. rx_m (Grp 2 (Many (NotChar CHR '']''))) True g s1
                  (\<lambda>g' s'. rx_m (Then (Chr CHR '']'') Eps) True g' s' k)"
  have unf: "rx_m title_pattern True g z k =
     (case (case z of [] \<Rightarrow> None
            | d # s1 \<Rightarrow> if chr_eq True CHR ''['' d then ?inner s1 else None) of
        Some x \<Rightarrow> Some x | None \<Rightarrow> k g z)" for z
    unfolding title_pattern_def seq.simps rx_m.simps(5) rx_m.simps(7) rx_m.simps(2) ..
  show ?thesis
  proof (cases s)
    case Nil
    then show ?thesis by (simp add: unf)
  next
    case (Cons d s1)
    show ?thesis
    proof (cases "d = CHR ''[''")
      case False
      then show ?thesis unfolding Cons unf
        by (simp add: chr_eq_def lower_char_lbracket eq_commute [of "lower_char CHR ''[''"])
    next
      case True
      show ?thesis unfolding Cons unf list.case title_inner using True
        by (simp add: chr_eq_def)
    qed
  qed
qed

lemma seq_append:
  "rx_m (seq (xs @ ys)) ic g s k = rx_m (seq xs) ic g s (\<lambda>g' s'. rx_m (seq ys) ic g' s' k)"
  by (induction xs arbitrary: g s k) auto

lemma env_pattern_split:
  "rx_m (env_pattern_str c) True g s k =
   rx_m (head_pattern c) True g s (\<lambda>g' s'. rx_m title_pattern True g' s' k)"
proof -
  have "env_pattern_str c =
        seq ([lit (bsl # ''begin{''), Grp 1 (alts (map lit (all_envs c))),
              Opt (Chr CHR ''*''), Chr CHR ''}''] @ [title_pattern])"
    by (simp add: env_pattern_str_def title_pattern_def)
  then show ?thesis unfolding head_pattern_def by (simp only: seq_append) simp
qed

lemma all_envs_nonempty: "all_envs c \<noteq> []"
proof -
  have "''definition'' \<in> set (all_envs c)" by (simp add: all_envs_def MATH_ENVIRONMENTS_def)
  then show ?thesis by auto
qed

lemma finite_head_pattern: "finite_rx (head_pattern c)"
  by (simp add: head_pattern_def finite_lit finite_alts_lit)

lemma paths_head_pattern:
  "(w, gs) \<in> set (paths (head_pattern c)) \<Longrightarrow>
   \<exists>v star. v \<in> set (all_envs c) \<and> (star = [] \<or> star = ''*'')
     \<and> w = begin_marker (v @ star) \<and> gs = [(1, 7, 7 + length v)]"
  by (auto simp: head_pattern_def paths_lit paths_alts_lit [OF all_envs_nonempty] shift_def
      begin_marker_def)

lemma first_some_SomeD: "first_some f xs = Some y \<Longrightarrow> \<exists>x\<in>set xs. f x = Some y"
  by (induction xs) (auto split: option.splits)

lemma rx_search_from_first:
  "rx_search_from ic r s i = Some m \<Longrightarrow>
   \<exists>g n. rx_first ic r (drop (m_start m - i) s) = Some (g, n) \<and> m_groups m = g
     \<and> m_end m = m_start m + n \<and> i \<le> m_start m \<and> m_start m \<le> i + length s"
proof (induction s arbitrary: i)
  case Nil
  then show ?case by (auto split: option.splits)
next
  case (Cons c t)
  show ?case
  proof (cases "rx_first ic r (c # t)")
    case None
    with Cons.prems have "rx_search_from ic r t (Suc i) = Some m" by simp
    from Cons.IH [OF this] obtain g n where
      *: "rx_first ic r (drop (m_start m - Suc i) t) = Some (g, n)" "m_groups m = g"
         "m_end m = m_start m + n" "Suc i \<le> m_start m" "m_start m \<le> Suc i + length t" by blast
    from *(4) have "m_start m - i = Suc (m_start m - Suc i)" by simp
    then have "drop (m_start m - i) (c # t) = drop (m_start m - Suc i) t" by simp
    with * show ?thesis by auto
  next
    case (Some a)
    with Cons.prems show ?thesis by (cases a) auto
  qed
qed

lemma starts_with_ci_take: "n \<le> length x \<Longrightarrow> starts_with_ci (take n x) x"
proof (induction x arbitrary: n)
  case Nil
  then show ?case by simp
next
  case (Cons a x)
  then show ?case by (cases n) auto
qed


lemma env_pattern_first:
  assumes "rx_first True (env_pattern_str c) s = Some (g, n)"
  shows "\<exists>raw star. map_of g 1 = Some raw \<and> (star = [] \<or> star = ''*'')
           \<and> starts_with_ci (begin_marker (raw @ star)) s
           \<and> map_of g 2 = bracketed (drop (length (begin_marker (raw @ star))) s)"
proof -
  let ?Kf = "\<lambda>g' s'. Some (g', length s - length s')"
  let ?K2 = "\<lambda>g' s'. rx_m title_pattern True g' s' ?Kf"
  from assms have "first_some (try_path [] s ?K2) (paths (head_pattern c)) = Some (g, n)"
    by (simp add: rx_first_def env_pattern_split rx_m_paths [OF finite_head_pattern])
  from first_some_SomeD [OF this] obtain w gs where
    p: "(w, gs) \<in> set (paths (head_pattern c))" and t: "try_path [] s ?K2 (w, gs) = Some (g, n)"
    by auto
  from paths_head_pattern [OF p] obtain v star where
    v: "star = [] \<or> star = ''*''" "w = begin_marker (v @ star)" "gs = [(1, 7, 7 + length v)]"
    by blast
  from t have sw: "starts_with_ci w s"
    and k: "?K2 (caps s gs) (drop (length w) s) = Some (g, n)"
    by (auto simp: try_path_def split: if_splits)
  define raw where "raw = slice s 7 (7 + length v)"
  define A where "A = bsl # ''begin{''"
  have lA: "length A = 7" by (simp add: A_def)
  have bm: "begin_marker (x @ star) = A @ x @ (star @ ''}'')" for x
    by (simp add: begin_marker_def A_def)
  from sw have sw3: "starts_with_ci A s" "starts_with_ci v (drop (length A) s)"
    "starts_with_ci (star @ ''}'') (drop (length v) (drop (length A) s))"
    unfolding v(2) bm starts_with_ci_append by simp_all
  from starts_with_ci_length [OF sw3(2)] have lv: "length v \<le> length (drop (length A) s)" .
  have raw: "raw = take (length v) (drop (length A) s)" by (simp add: raw_def slice_def lA)
  from lv have lr: "length raw = length v" unfolding raw by simp
  have "starts_with_ci raw (drop (length A) s)"
    unfolding raw using lv by (rule starts_with_ci_take)
  with sw3 lr have sr: "starts_with_ci (begin_marker (raw @ star)) s"
    unfolding bm starts_with_ci_append by simp
  have lw: "length (begin_marker (raw @ star)) = length w"
    unfolding v(2) bm by (simp add: lr)
  have G: "caps s gs = [(1, raw)]" by (simp add: caps_def v(3) raw_def)
  show ?thesis
  proof (cases "bracketed (drop (length w) s)")
    case None
    with k G have "g = [(1, raw)]" by (simp add: title_m)
    with None v(1) sr lw show ?thesis by auto
  next
    case (Some t)
    with k G have "g = [(2, t), (1, raw)]" by (simp add: title_m)
    with Some v(1) sr lw show ?thesis by auto
  qed
qed

lemma env_pattern_search:
  assumes "rx_search True (env_pattern (init c)) text pos = Some m"
  shows "\<exists>raw star. group m 1 = Some raw \<and> (star = [] \<or> star = ''*'')
           \<and> starts_with_ci (begin_marker (raw @ star)) (drop (m_start m) text)
           \<and> group m 2 =
               bracketed (drop (m_start m + length (begin_marker (raw @ star))) text)"
proof -
  let ?p = "min pos (length text)"
  from assms have "rx_search_from True (env_pattern_str c) (drop ?p text) ?p = Some m"
    by (simp add: rx_search_def init_def Let_def)
  from rx_search_from_first [OF this] obtain g n where
    f: "rx_first True (env_pattern_str c) (drop (m_start m - ?p) (drop ?p text)) = Some (g, n)"
    and g: "m_groups m = g" and le: "?p \<le> m_start m" by blast
  from le have "drop (m_start m - ?p) (drop ?p text) = drop (m_start m) text" by simp
  with f have "rx_first True (env_pattern_str c) (drop (m_start m) text) = Some (g, n)" by simp
  from env_pattern_first [OF this] g show ?thesis
    by (simp add: group_def add.commute)
qed

lemma title_of_bracketed:
  "title_of m =
     (case group m 2 of
        None \<Rightarrow> None
      | Some t \<Rightarrow> if t = [] then None else if list_all isspace t then Some [] else Some (strip t))"
  by (auto simp: title_of_def strip_Nil_iff split: option.splits)

lemma step_of_title: "step_of text st = Emit b n \<Longrightarrow> b_title b = s_title st"
  by (auto simp: step_of_def Let_def make_block_def split: if_splits option.splits)

lemma first_marker_plain:
  "bsl_markers ms \<Longrightarrow> bsl \<notin> set a \<Longrightarrow>
   first_marker ms (a @ s) i = first_marker ms s (i + length a)"
  by (induction a arbitrary: i) (auto simp: marker_at_bsl)

lemma bsl_proof_begin_markers: "bsl_markers proof_begin_markers"
  by (simp add: bsl_markers_def proof_begin_markers_def proof_variants_def begin_marker_def)

lemma first_marker_head:
  assumes "marker_at ms (w @ s) = Some (b, n)" "w \<noteq> []"
  shows "first_marker ms (w @ s) i = Some (i, b, n)"
proof -
  from assms(2) obtain c w' where "w = c # w'" by (cases w) auto
  with assms(1) show ?thesis by simp
qed

lemma balanced_block_proof:
  assumes "v' \<in> set proof_variants" "bsl \<notin> set a"
  shows "balanced_block proof_markers (p @ a @ end_marker v' @ rest) (length p) =
         (a, length (p @ a @ end_marker v'))"
proof -
  have ne: "end_marker v' \<noteq> []" by (simp add: end_marker_def)
  have "balance proof_markers 1 0 (a @ end_marker v' @ rest) (length p) =
        Some (length p + length a, length p + length a + length (end_marker v'))"
    using assms(2)
    by (simp add: balance_plain [OF bsl_proof_markers]
        balance_marker [OF proof_variant_markers(3) [OF assms(1)] ne])
  then show ?thesis by (simp add: balanced_block_def slice_def add.assoc)
qed

lemma extract_proof_adjacent:
  assumes "v \<in> set proof_variants" "v' \<in> set proof_variants" "bsl \<notin> set ws" "bsl \<notin> set a"
  shows "extract_proof (init c) (pre @ ws @ begin_marker v @ a @ end_marker v' @ rest) (length pre) =
         (if list_all isspace ws
          then Some (Some (a, length (pre @ ws @ begin_marker v @ a @ end_marker v')))
          else Some None)"
proof -
  let ?text = "pre @ ws @ begin_marker v @ a @ end_marker v' @ rest"
  let ?n = "length (begin_marker v)"
  have ne: "begin_marker v \<noteq> []" by (simp add: begin_marker_def)
  have "first_marker proof_begin_markers (ws @ begin_marker v @ a @ end_marker v' @ rest) 0 =
        Some (length ws, True, ?n)"
    using first_marker_head [OF proof_variant_markers(2) [OF assms(1)] ne]
    by (simp add: first_marker_plain [OF bsl_proof_begin_markers assms(3)])
  then have fm: "first_marker proof_begin_markers (drop (length pre) ?text) 0 =
                 Some (length ws, True, ?n)" by simp
  have tk: "take (length ws) (drop (length pre) ?text) = ws" by simp
  have "balanced_block proof_markers ((pre @ ws @ begin_marker v) @ a @ end_marker v' @ rest)
          (length (pre @ ws @ begin_marker v)) =
        (a, length ((pre @ ws @ begin_marker v) @ a @ end_marker v'))"
    using assms(2,4) by (rule balanced_block_proof)
  then have bb: "balanced_block proof_markers ?text (length pre + (length ws + ?n)) =
                 (a, length (pre @ ws @ begin_marker v @ a @ end_marker v'))"
    by (simp add: add.assoc)
  show ?thesis unfolding extract_proof_eq fm option.case prod.case tk bb by simp
qed

lemma step_of_no_proof:
  assumes "3 \<le> length (clean_content (s_content st))"
    "proof_after text (s_content_end st) = None"
  shows "\<exists>b. step_of text st = Emit b (s_content_end st)
           \<and> b_content_latex b = clean_content (s_content st) \<and> b_proof_latex b = None"
  using assms by (simp add: step_of_def Let_def make_block_def)

lemma step_of_proof:
  assumes "3 \<le> length (clean_content (s_content st))"
    "proof_after text (s_content_end st) = Some (pcont, pend)"
  shows "\<exists>b. step_of text st = Emit b pend
           \<and> b_content_latex b = clean_content (s_content st)
           \<and> (3 \<le> length (clean_content pcont) \<longrightarrow> b_proof_latex b = Some (clean_content pcont))
           \<and> (clean_content pcont \<noteq> [] \<and> length (clean_content pcont) < 3 \<longrightarrow>
                b_proof_latex b = None)"
  using assms by (auto simp: step_of_def Let_def make_block_def)

section \<open>The claims\<close>

text \<open>
  C1. \<open>extract_environment\<close> is the balanced scan of the specification. From the start
  offset it reads the successive markers \<open>\\begin{name}\<close>, \<open>\\begin{name*}\<close>,
  \<open>\\end{name}\<close>, \<open>\\end{name*}\<close> of the raw name (its trailing stars stripped, letters
  compared without case), with a depth that starts at 1, goes up at an opening marker and
  down at a closing one; at depth 0 it returns the text from the start offset to the start
  of that closing marker, and the offset just past it; with no such marker it returns the
  rest of the text and its length. It always returns, and raises nothing. In particular,
  when an environment of the same name is nested in the block, the closing marker of the
  nested one does not close the block: the content runs to the second closing marker and
  holds the nested environment whole.
\<close>

theorem extract_environment_balanced_scan:
  "extract_environment text start_pos env_type =
     Some (Inr (balanced_block (env_markers (rstrip_star env_type)) text start_pos))
   \<and> (bsl \<notin> set a \<and> bsl \<notin> set b \<and> bsl \<notin> set c \<longrightarrow>
      (let nm = rstrip_star env_type in
       extract_environment
         (pre @ a @ begin_marker nm @ b @ end_marker nm @ c @ end_marker nm @ rest)
         (length pre) env_type =
       Some (Inr (a @ begin_marker nm @ b @ end_marker nm @ c,
                  length (pre @ a @ begin_marker nm @ b @ end_marker nm @ c @ end_marker nm)))))"
  using balanced_block_nested [of a b c "rstrip_star env_type" pre rest]
  by (simp add: extract_environment_balanced)

theorem extract_environment_balanced_scan_witness:
  "bsl \<notin> set ''a'' \<and> bsl \<notin> set ''b'' \<and> bsl \<notin> set ''c'' \<and>
   extract_environment
     (''p'' @ ''a'' @ begin_marker ''lem'' @ ''b'' @ end_marker ''lem'' @ ''c''
        @ end_marker ''lem'' @ ''r'')
     1 ''lem*'' =
   Some (Inr (''a'' @ begin_marker ''lem'' @ ''b'' @ end_marker ''lem'' @ ''c'', 33))"
  using extract_environment_balanced_scan
    [of "''p''" 1 "''lem*''" "''a''" "''b''" "''c''" "''p''" "''r''"]
  by (simp add: bsl_def rstrip_star_def begin_marker_def end_marker_def)

text \<open>
  C5. The proof body is scanned with one depth for all proof synonyms. From the offset just
  past the opening proof marker, \<open>extract_proof\<close> reads the successive markers
  \<open>\\begin{v}\<close>, \<open>\\begin{v*}\<close>, \<open>\\end{v}\<close>, \<open>\\end{v*}\<close> of every synonym \<open>v\<close>
  (\<open>proof_markers\<close>): an opening marker of any synonym raises the depth, a closing marker
  of any synonym lowers it, and at depth 0 the content up to that closing marker and the
  offset just past it are returned; with no such marker the proof is the rest of the text.
  In particular a proof opened under one synonym is closed by the closing marker of any
  other.
\<close>

theorem extract_proof_any_synonym:
  "extract_proof (init c) text start_pos =
     Some (case first_marker proof_begin_markers (drop start_pos text) 0 of
             None \<Rightarrow> None
           | Some (j, b, n) \<Rightarrow>
               if list_all isspace (take j (drop start_pos text))
               then Some (balanced_block proof_markers text (start_pos + (j + n)))
               else None)
   \<and> (v \<in> set proof_variants \<and> v' \<in> set proof_variants \<and> bsl \<notin> set a \<longrightarrow>
        extract_proof (init c) (pre @ begin_marker v @ a @ end_marker v' @ rest) (length pre) =
        Some (Some (a, length (pre @ begin_marker v @ a @ end_marker v'))))"
  using extract_proof_synonyms [of v v' a c pre rest] by (simp only: extract_proof_eq) simp

theorem extract_proof_any_synonym_witness:
  "''proof'' \<in> set proof_variants \<and> ''dem'' \<in> set proof_variants \<and> bsl \<notin> set ''x'' \<and>
   extract_proof (init []) (''p'' @ begin_marker ''proof'' @ ''x'' @ end_marker ''dem'' @ ''r'') 1 =
   Some (Some (''x'', 24))"
  using extract_proof_any_synonym [of "[]" "''p''" 1 "''proof''" "''dem''" "''x''" "''p''" "''r''"]
  by (simp add: proof_variants_def bsl_def begin_marker_def end_marker_def)

text \<open>
  C2, as the code has it. The claim counts non-whitespace characters; the code measures the
  length of the cleaned content, which is stripped at both ends, so whitespace inside it
  counts. A statement whose cleaned content is shorter than 3 characters is skipped, and the
  walk goes on at the end of its content; one of 3 characters or more is emitted with that
  content. Every block \<open>parse_text\<close> returns has a content of at least 3 characters with no
  whitespace at either end.
\<close>

theorem statement_kept_by_length:
  "(read_statement (init c) text pos = Some (Inr (Some st)) \<longrightarrow>
      (length (clean_content (s_content st)) < 3 \<longrightarrow>
         walk_step (init c) text pos = Some (Inr (Skip (s_content_end st))))
    \<and> (3 \<le> length (clean_content (s_content st)) \<longrightarrow>
         (\<exists>b n. walk_step (init c) text pos = Some (Inr (Emit b n))
            \<and> b_content_latex b = clean_content (s_content st))))
   \<and> (parse_text (init c) text auto_detect_envs = Some (Inr (blocks, p')) \<longrightarrow>
        list_all (\<lambda>b. 3 \<le> length (b_content_latex b)
                    \<and> strip (b_content_latex b) = b_content_latex b) blocks)"
proof (intro conjI impI)
  assume rs: "read_statement (init c) text pos = Some (Inr (Some st))"
  note ws = walk_step_statement [OF rs]
  show "walk_step (init c) text pos = Some (Inr (Skip (s_content_end st)))"
    if "length (clean_content (s_content st)) < 3"
    using that by (simp add: ws step_of_def Let_def)
  show "\<exists>b n. walk_step (init c) text pos = Some (Inr (Emit b n))
            \<and> b_content_latex b = clean_content (s_content st)"
    if "3 \<le> length (clean_content (s_content st))"
    using that
    by (cases "proof_after text (s_content_end st)")
       (auto simp: ws step_of_def Let_def make_block_def)
next
  assume pt: "parse_text (init c) text auto_detect_envs = Some (Inr (blocks, p'))"
  from parse_text_total [of kept_content c "text" auto_detect_envs] pt
  have "list_all kept_content blocks" by auto
  then show "list_all (\<lambda>b. 3 \<le> length (b_content_latex b)
                    \<and> strip (b_content_latex b) = b_content_latex b) blocks"
    by (auto simp: list_all_iff kept_content_def)
qed

theorem statement_kept_by_length_witness:
  "read_statement (init []) (begin_marker ''lemma'' @ ''a b'' @ end_marker ''lemma'') 0 =
     Some (Inr (Some \<lparr>s_type = ''lemma'', s_label = None, s_title = None, s_content = ''a b'',
                       s_content_end = 27\<rparr>))
   \<and> 3 \<le> length (clean_content ''a b'')
   \<and> (\<exists>b n. walk_step (init []) (begin_marker ''lemma'' @ ''a b'' @ end_marker ''lemma'') 0 =
              Some (Inr (Emit b n)) \<and> b_content_latex b = clean_content ''a b'')
   \<and> read_statement (init []) (begin_marker ''lemma'' @ ''ab'' @ end_marker ''lemma'') 0 =
     Some (Inr (Some \<lparr>s_type = ''lemma'', s_label = None, s_title = None, s_content = ''ab'',
                       s_content_end = 26\<rparr>))
   \<and> length (clean_content ''ab'') < 3
   \<and> walk_step (init []) (begin_marker ''lemma'' @ ''ab'' @ end_marker ''lemma'') 0 =
       Some (Inr (Skip 26))
   \<and> parse_text (init []) (begin_marker ''lemma'' @ ''a b'' @ end_marker ''lemma'') True =
       Some (Inr ([\<lparr>b_type = ''lemma'', b_label = None, b_title = None,
                     b_content_latex = ''a b'', b_proof_latex = None, b_references = None\<rparr>],
                  init []))
   \<and> 3 \<le> length ''a b'' \<and> strip ''a b'' = ''a b''"
proof -
  let ?T = "begin_marker ''lemma'' @ ''a b'' @ end_marker ''lemma''"
  let ?S = "\<lparr>s_type = ''lemma'', s_label = None, s_title = None, s_content = ''a b'',
             s_content_end = 27\<rparr>"
  let ?T' = "begin_marker ''lemma'' @ ''ab'' @ end_marker ''lemma''"
  let ?S' = "\<lparr>s_type = ''lemma'', s_label = None, s_title = None, s_content = ''ab'',
             s_content_end = 26\<rparr>"
  let ?B = "\<lparr>b_type = ''lemma'', b_label = None, b_title = None,
             b_content_latex = ''a b'', b_proof_latex = None, b_references = None\<rparr>"
  have h1: "read_statement (init []) ?T 0 = Some (Inr (Some ?S))" by code_simp
  have h2: "3 \<le> length (clean_content ''a b'')" by code_simp
  have h3: "read_statement (init []) ?T' 0 = Some (Inr (Some ?S'))" by code_simp
  have h4: "length (clean_content ''ab'') < 3" by code_simp
  have h5: "parse_text (init []) ?T True = Some (Inr ([?B], init []))" by code_simp
  from statement_kept_by_length [of "[]" ?T 0 ?S True "[?B]" "init []"] h1 h2 h5
  have c1: "\<exists>b n. walk_step (init []) ?T 0 = Some (Inr (Emit b n))
              \<and> b_content_latex b = clean_content ''a b''"
    and c3: "3 \<le> length ''a b'' \<and> strip ''a b'' = ''a b''" by simp_all
  from statement_kept_by_length [of "[]" ?T' 0 ?S' True "[?B]" "init []"] h3 h4
  have c2: "walk_step (init []) ?T' 0 = Some (Inr (Skip 26))" by simp
  from h1 h2 h3 h4 h5 c1 c2 c3 show ?thesis by blast
qed

text \<open>
  C2 as stated fails: the body \<open>a b\<close> has 2 non-whitespace characters and its block is
  emitted, because its length is 3.
\<close>

theorem statement_kept_counterexample:
  "parse_text (init []) (begin_marker ''lemma'' @ ''a b'' @ end_marker ''lemma'') True =
     Some (Inr ([\<lparr>b_type = ''lemma'', b_label = None, b_title = None, b_content_latex = ''a b'',
                  b_proof_latex = None, b_references = None\<rparr>], init []))
   \<and> nonspace_count ''a b'' = 2"
  by code_simp

text \<open>
  C3, as the code has it. For an emitted block: with no proof associated the proof field is
  \<open>None\<close> and the walk goes on at the content end; with a proof associated whose cleaned
  content is not empty, the field holds that content when its length (whitespace inside
  counted) is at least 3 and is \<open>None\<close> when it is 1 or 2, and the walk goes on past the
  proof. In every block \<open>parse_text\<close> returns, a proof that is present and not empty has at
  least 3 characters. Nothing is said here of a proof whose cleaned content is empty.
\<close>

theorem proof_kept_by_length:
  "(read_statement (init c) text pos = Some (Inr (Some st))
      \<and> walk_step (init c) text pos = Some (Inr (Emit b n)) \<longrightarrow>
      (extract_proof (init c) text (s_content_end st) = Some None \<longrightarrow>
         b_proof_latex b = None \<and> n = s_content_end st)
    \<and> (\<forall>pcont pend.
          extract_proof (init c) text (s_content_end st) = Some (Some (pcont, pend))
          \<and> clean_content pcont \<noteq> [] \<longrightarrow>
          b_proof_latex b =
            (if 3 \<le> length (clean_content pcont) then Some (clean_content pcont) else None)
          \<and> n = pend))
   \<and> (parse_text (init c) text auto_detect_envs = Some (Inr (blocks, p')) \<longrightarrow>
        list_all (\<lambda>b. case b_proof_latex b of
                        None \<Rightarrow> True
                      | Some pr \<Rightarrow> pr = [] \<or> 3 \<le> length pr) blocks)"
proof (intro conjI impI allI)
  assume a: "read_statement (init c) text pos = Some (Inr (Some st))
      \<and> walk_step (init c) text pos = Some (Inr (Emit b n))"
  then have e: "step_of text st = Emit b n" using walk_step_statement [of c "text" pos st] by simp
  show "b_proof_latex b = None" if "extract_proof (init c) text (s_content_end st) = Some None"
    using that e
    by (auto simp: extract_proof_proof_after step_of_def Let_def make_block_def
        split: if_splits)
  show "n = s_content_end st" if "extract_proof (init c) text (s_content_end st) = Some None"
    using that e
    by (auto simp: extract_proof_proof_after step_of_def Let_def make_block_def
        split: if_splits)
  fix pcont pend
  assume p: "extract_proof (init c) text (s_content_end st) = Some (Some (pcont, pend))
          \<and> clean_content pcont \<noteq> []"
  show "b_proof_latex b =
            (if 3 \<le> length (clean_content pcont) then Some (clean_content pcont) else None)"
    using p e
    by (auto simp: extract_proof_proof_after step_of_def Let_def make_block_def
        split: if_splits)
  show "n = pend"
    using p e
    by (auto simp: extract_proof_proof_after step_of_def Let_def make_block_def
        split: if_splits)
next
  assume pt: "parse_text (init c) text auto_detect_envs = Some (Inr (blocks, p'))"
  from parse_text_total [of kept_proof c "text" auto_detect_envs] pt
  have "list_all kept_proof blocks" by auto
  then show "list_all (\<lambda>b. case b_proof_latex b of
                        None \<Rightarrow> True
                      | Some pr \<Rightarrow> pr = [] \<or> 3 \<le> length pr) blocks"
    by (auto simp: list_all_iff kept_proof_def)
qed

theorem proof_kept_by_length_witness:
  "read_statement (init [])
     (begin_marker ''lemma'' @ ''abc'' @ end_marker ''lemma'' @
      begin_marker ''proof'' @ ''xy'' @ end_marker ''proof'') 0 =
     Some (Inr (Some \<lparr>s_type = ''lemma'', s_label = None, s_title = None, s_content = ''abc'',
                       s_content_end = 27\<rparr>))
   \<and> walk_step (init [])
     (begin_marker ''lemma'' @ ''abc'' @ end_marker ''lemma'' @
      begin_marker ''proof'' @ ''xy'' @ end_marker ''proof'') 0 =
     Some (Inr (Emit \<lparr>b_type = ''lemma'', b_label = None, b_title = None,
                       b_content_latex = ''abc'', b_proof_latex = None, b_references = None\<rparr> 53))
   \<and> extract_proof (init [])
     (begin_marker ''lemma'' @ ''abc'' @ end_marker ''lemma'' @
      begin_marker ''proof'' @ ''xy'' @ end_marker ''proof'') 27 = Some (Some (''xy'', 53))
   \<and> clean_content ''xy'' \<noteq> []
   \<and> None = (if 3 \<le> length (clean_content ''xy'') then Some (clean_content ''xy'') else None)
   \<and> read_statement (init []) (begin_marker ''lemma'' @ ''abc'' @ end_marker ''lemma'') 0 =
     Some (Inr (Some \<lparr>s_type = ''lemma'', s_label = None, s_title = None, s_content = ''abc'',
                       s_content_end = 27\<rparr>))
   \<and> walk_step (init []) (begin_marker ''lemma'' @ ''abc'' @ end_marker ''lemma'') 0 =
     Some (Inr (Emit \<lparr>b_type = ''lemma'', b_label = None, b_title = None,
                       b_content_latex = ''abc'', b_proof_latex = None, b_references = None\<rparr> 27))
   \<and> extract_proof (init []) (begin_marker ''lemma'' @ ''abc'' @ end_marker ''lemma'') 27 = Some None
   \<and> parse_text (init [])
     (begin_marker ''lemma'' @ ''abc'' @ end_marker ''lemma'' @
      begin_marker ''proof'' @ ''xyz'' @ end_marker ''proof'') True =
     Some (Inr ([\<lparr>b_type = ''lemma'', b_label = None, b_title = None, b_content_latex = ''abc'',
                    b_proof_latex = Some ''xyz'', b_references = None\<rparr>], init []))
   \<and> 3 \<le> length ''xyz''"
proof -
  let ?T = "begin_marker ''lemma'' @ ''abc'' @ end_marker ''lemma'' @
      begin_marker ''proof'' @ ''xy'' @ end_marker ''proof''"
  let ?T' = "begin_marker ''lemma'' @ ''abc'' @ end_marker ''lemma''"
  let ?T'' = "begin_marker ''lemma'' @ ''abc'' @ end_marker ''lemma'' @
      begin_marker ''proof'' @ ''xyz'' @ end_marker ''proof''"
  let ?S = "\<lparr>s_type = ''lemma'', s_label = None, s_title = None, s_content = ''abc'',
             s_content_end = 27\<rparr>"
  let ?B = "\<lparr>b_type = ''lemma'', b_label = None, b_title = None,
             b_content_latex = ''abc'', b_proof_latex = None, b_references = None\<rparr>"
  let ?B' = "\<lparr>b_type = ''lemma'', b_label = None, b_title = None,
             b_content_latex = ''abc'', b_proof_latex = Some ''xyz'', b_references = None\<rparr>"
  have h1: "read_statement (init []) ?T 0 = Some (Inr (Some ?S))" by code_simp
  have h2: "walk_step (init []) ?T 0 = Some (Inr (Emit ?B 53))" by code_simp
  have h3: "extract_proof (init []) ?T 27 = Some (Some (''xy'', 53))" by code_simp
  have h4: "clean_content ''xy'' \<noteq> []" by code_simp
  have h5: "read_statement (init []) ?T' 0 = Some (Inr (Some ?S))" by code_simp
  have h6: "walk_step (init []) ?T' 0 = Some (Inr (Emit ?B 27))" by code_simp
  have h7: "extract_proof (init []) ?T' 27 = Some None" by code_simp
  have h8: "parse_text (init []) ?T'' True = Some (Inr ([?B'], init []))" by code_simp
  from proof_kept_by_length [of "[]" ?T 0 ?S ?B 53 True "[]" "init []"] h1 h2 h3 h4
  have c1: "None =
     (if 3 \<le> length (clean_content ''xy'') then Some (clean_content ''xy'') else None)"
    by simp
  from proof_kept_by_length [of "[]" ?T'' 0 ?S ?B 53 True "[?B']" "init []"] h8
  have c2: "3 \<le> length ''xyz''" by simp
  from h1 h2 h3 h4 h5 h6 h7 h8 c1 c2 show ?thesis by blast
qed

text \<open>
  C3 as stated fails: the proof body \<open>a b\<close> has 2 non-whitespace characters and is kept,
  because its length is 3.
\<close>

theorem proof_kept_counterexample:
  "parse_text (init [])
     (begin_marker ''lemma'' @ ''abc'' @ end_marker ''lemma'' @
      begin_marker ''proof'' @ ''a b'' @ end_marker ''proof'') True =
     Some (Inr ([\<lparr>b_type = ''lemma'', b_label = None, b_title = None, b_content_latex = ''abc'',
                  b_proof_latex = Some ''a b'', b_references = None\<rparr>], init []))
   \<and> nonspace_count ''a b'' = 2"
  by code_simp

text \<open>
  The proof check of \<open>parse_text\<close> reads \<open>proof_clean and len(...) < 3\<close> where the
  statement check reads \<open>not content_clean or len(...) < 3\<close>: a proof whose cleaned content
  is empty is kept, as the empty string.
\<close>

lemma empty_proof_kept_as_empty_string:
  "parse_text (init [])
     (begin_marker ''lemma'' @ ''abc'' @ end_marker ''lemma'' @
      begin_marker ''proof'' @ end_marker ''proof'') True =
     Some (Inr ([\<lparr>b_type = ''lemma'', b_label = None, b_title = None, b_content_latex = ''abc'',
                  b_proof_latex = Some [], b_references = None\<rparr>], init []))"
  by code_simp

text \<open>
  C4. \<open>extract_proof\<close> always returns, and what it returns is determined by the first proof
  opening marker after the given offset: when there is one and everything between the offset
  and that marker is whitespace, it returns the text of the proof environment that opens
  there (read by the depth scan over the proof markers) with the offset after its closing
  marker, and otherwise nothing. In particular, for a text of the shape
  \<open>pre @ ws @ begin_marker v @ a @ end_marker v' @ rest\<close>, with \<open>v\<close> and \<open>v'\<close> proof names and no
  backslash in \<open>ws\<close> and \<open>a\<close>, the call at the end of \<open>pre\<close> returns \<open>a\<close> and the offset where
  \<open>rest\<close> begins when \<open>ws\<close> is whitespace, and nothing when \<open>ws\<close> has a character that is not
  whitespace. For a statement that is kept, the turn of the walk does what this result says:
  with no proof it emits the block with an absent proof and goes on at the content end of the
  statement; with a proof it emits one block and goes on at the end offset of the proof,
  which lies after the content end, and the block carries the normalized proof text when
  that text has at least 3 characters, the minimum length for a proof to be kept.
\<close>

theorem proof_association:
  "extract_proof (init c) text pos =
     Some (case first_marker proof_begin_markers (drop pos text) 0 of
             None \<Rightarrow> None
           | Some (j, b, n) \<Rightarrow>
               if list_all isspace (take j (drop pos text))
               then Some (balanced_block proof_markers text (pos + (j + n)))
               else None)
   \<and> (v \<in> set proof_variants \<and> v' \<in> set proof_variants \<and> bsl \<notin> set ws \<and> bsl \<notin> set a \<longrightarrow>
        extract_proof (init c) (pre @ ws @ begin_marker v @ a @ end_marker v' @ rest) (length pre) =
          (if list_all isspace ws
           then Some (Some (a, length (pre @ ws @ begin_marker v @ a @ end_marker v')))
           else Some None))
   \<and> (read_statement (init c) text pos = Some (Inr (Some st))
        \<and> 3 \<le> length (clean_content (s_content st)) \<longrightarrow>
        (extract_proof (init c) text (s_content_end st) = Some None \<longrightarrow>
           (\<exists>b. walk_step (init c) text pos = Some (Inr (Emit b (s_content_end st)))
              \<and> b_content_latex b = clean_content (s_content st)
              \<and> b_proof_latex b = None))
      \<and> (\<forall>pcont pend.
            extract_proof (init c) text (s_content_end st) = Some (Some (pcont, pend)) \<longrightarrow>
            (\<exists>b. walk_step (init c) text pos = Some (Inr (Emit b pend))
               \<and> s_content_end st < pend
               \<and> b_content_latex b = clean_content (s_content st)
               \<and> (3 \<le> length (clean_content pcont) \<longrightarrow>
                    b_proof_latex b = Some (clean_content pcont)))))"
proof (intro conjI impI allI)
  show "extract_proof (init c) text pos =
     Some (case first_marker proof_begin_markers (drop pos text) 0 of
             None \<Rightarrow> None
           | Some (j, b, n) \<Rightarrow>
               if list_all isspace (take j (drop pos text))
               then Some (balanced_block proof_markers text (pos + (j + n)))
               else None)"
    by (rule extract_proof_eq)
  show "extract_proof (init c) (pre @ ws @ begin_marker v @ a @ end_marker v' @ rest) (length pre) =
          (if list_all isspace ws
           then Some (Some (a, length (pre @ ws @ begin_marker v @ a @ end_marker v')))
           else Some None)"
    if "v \<in> set proof_variants \<and> v' \<in> set proof_variants \<and> bsl \<notin> set ws \<and> bsl \<notin> set a"
    using that extract_proof_adjacent [of v v' ws a c pre rest] by blast
next
  assume a: "read_statement (init c) text pos = Some (Inr (Some st))
        \<and> 3 \<le> length (clean_content (s_content st))"
  then have ws: "walk_step (init c) text pos = Some (Inr (step_of text st))"
    by (simp add: walk_step_statement)
  assume n: "extract_proof (init c) text (s_content_end st) = Some None"
  then have "proof_after text (s_content_end st) = None" by (simp add: extract_proof_proof_after)
  from step_of_no_proof [OF _ this] a ws
  show "\<exists>b. walk_step (init c) text pos = Some (Inr (Emit b (s_content_end st)))
              \<and> b_content_latex b = clean_content (s_content st)
              \<and> b_proof_latex b = None" by auto
next
  fix pcont pend
  assume a: "read_statement (init c) text pos = Some (Inr (Some st))
        \<and> 3 \<le> length (clean_content (s_content st))"
  then have ws: "walk_step (init c) text pos = Some (Inr (step_of text st))"
    by (simp add: walk_step_statement)
  assume p: "extract_proof (init c) text (s_content_end st) = Some (Some (pcont, pend))"
  then have pa: "proof_after text (s_content_end st) = Some (pcont, pend)"
    by (simp add: extract_proof_proof_after)
  from read_statement_cases [of c "text" pos] a have "s_content_end st \<le> length text" by auto
  from proof_after_bounds(1) [OF this pa] have lt: "s_content_end st < pend" .
  from step_of_proof [OF _ pa] a obtain b where
    "step_of text st = Emit b pend"
    "b_content_latex b = clean_content (s_content st)"
    "3 \<le> length (clean_content pcont) \<longrightarrow> b_proof_latex b = Some (clean_content pcont)"
    by blast
  with ws lt show "\<exists>b. walk_step (init c) text pos = Some (Inr (Emit b pend))
               \<and> s_content_end st < pend
               \<and> b_content_latex b = clean_content (s_content st)
               \<and> (3 \<le> length (clean_content pcont) \<longrightarrow>
                    b_proof_latex b = Some (clean_content pcont))" by auto
qed

theorem proof_association_witness:
  "extract_proof (init [])
     ((begin_marker ''lemma'' @ ''abc'' @ end_marker ''lemma'') @ [CHR '' '', CHR 0x0A, CHR '' ''] @
      begin_marker ''proof'' @ ''xyz'' @ end_marker ''proof'' @ '' Then.'') 27 =
     Some (Some (''xyz'', 57))
   \<and> (\<exists>b. walk_step (init [])
          ((begin_marker ''lemma'' @ ''abc'' @ end_marker ''lemma'') @
           [CHR '' '', CHR 0x0A, CHR '' ''] @
           begin_marker ''proof'' @ ''xyz'' @ end_marker ''proof'' @ '' Then.'') 0 =
          Some (Inr (Emit b 57))
        \<and> b_content_latex b = ''abc'' \<and> b_proof_latex b = Some ''xyz'')
   \<and> extract_proof (init [])
     ((begin_marker ''lemma'' @ ''abc'' @ end_marker ''lemma'') @ '' x '' @
      begin_marker ''proof'' @ ''xyz'' @ end_marker ''proof'' @ '' Then.'') 27 = Some None
   \<and> (\<exists>b. walk_step (init [])
          ((begin_marker ''lemma'' @ ''abc'' @ end_marker ''lemma'') @ '' x '' @
           begin_marker ''proof'' @ ''xyz'' @ end_marker ''proof'' @ '' Then.'') 0 =
          Some (Inr (Emit b 27))
        \<and> b_content_latex b = ''abc'' \<and> b_proof_latex b = None)"
proof -
  let ?L = "begin_marker ''lemma'' @ ''abc'' @ end_marker ''lemma''"
  let ?W = "[CHR '' '', CHR 0x0A, CHR '' '']"
  let ?P = "?L @ ?W @ begin_marker ''proof'' @ ''xyz'' @ end_marker ''proof'' @ '' Then.''"
  let ?N = "?L @ '' x '' @ begin_marker ''proof'' @ ''xyz'' @ end_marker ''proof'' @ '' Then.''"
  let ?S = "\<lparr>s_type = ''lemma'', s_label = None, s_title = None, s_content = ''abc'',
             s_content_end = 27\<rparr>"
  have v: "''proof'' \<in> set proof_variants" by code_simp
  have w1: "bsl \<notin> set ?W" by code_simp
  have w2: "bsl \<notin> set '' x ''" by code_simp
  have w3: "bsl \<notin> set ''xyz''" by code_simp
  have s1: "list_all isspace ?W" by code_simp
  have s2: "\<not> list_all isspace '' x ''" by code_simp
  have l1: "length ?L = 27" by code_simp
  have l2: "length (?L @ ?W @ begin_marker ''proof'' @ ''xyz'' @ end_marker ''proof'') = 57"
    by code_simp
  have sc: "s_content ?S = ''abc''" and se: "s_content_end ?S = 27" by simp_all
  have c1: "clean_content ''abc'' = ''abc''" by code_simp
  have c2: "clean_content ''xyz'' = ''xyz''" by code_simp
  have h3: "3 \<le> length (clean_content (s_content ?S))" unfolding sc c1 by simp
  have r1: "read_statement (init []) ?P 0 = Some (Inr (Some ?S))" by code_simp
  have r2: "read_statement (init []) ?N 0 = Some (Inr (Some ?S))" by code_simp
  note pos = proof_association [of "[]" ?P 0 "''proof''" "''proof''" ?W "''xyz''" ?L "'' Then.''" ?S]
  note neg = proof_association [of "[]" ?N 0 "''proof''" "''proof''" "'' x ''" "''xyz''" ?L
      "'' Then.''" ?S]
  from pos v w1 w3
  have "extract_proof (init []) ?P (length ?L) =
          (if list_all isspace ?W
           then Some (Some (''xyz'', length (?L @ ?W @ begin_marker ''proof'' @ ''xyz'' @
                                               end_marker ''proof'')))
           else Some None)"
    by blast
  then have e1: "extract_proof (init []) ?P 27 = Some (Some (''xyz'', 57))"
    unfolding l1 l2 using s1 by (simp only: if_True)
  from neg v w2 w3
  have "extract_proof (init []) ?N (length ?L) =
          (if list_all isspace '' x ''
           then Some (Some (''xyz'', length (?L @ '' x '' @ begin_marker ''proof'' @ ''xyz'' @
                                               end_marker ''proof'')))
           else Some None)"
    by blast
  then have e2: "extract_proof (init []) ?N 27 = Some None"
    unfolding l1 using s2 by (simp only: if_False)
  from e1 have e1': "extract_proof (init []) ?P (s_content_end ?S) = Some (Some (''xyz'', 57))"
    unfolding se .
  from e2 have e2': "extract_proof (init []) ?N (s_content_end ?S) = Some None"
    unfolding se .
  from pos r1 h3 e1' obtain b where b:
    "walk_step (init []) ?P 0 = Some (Inr (Emit b 57))"
    "b_content_latex b = clean_content (s_content ?S)"
    "3 \<le> length (clean_content ''xyz'') \<longrightarrow> b_proof_latex b = Some (clean_content ''xyz'')"
    by blast
  from b(2) have b2: "b_content_latex b = ''abc''" unfolding sc c1 .
  from b(3) have b3: "b_proof_latex b = Some ''xyz''" unfolding c2 by simp
  from neg r2 h3 e2' obtain b' where b':
    "walk_step (init []) ?N 0 = Some (Inr (Emit b' (s_content_end ?S)))"
    "b_content_latex b' = clean_content (s_content ?S)"
    "b_proof_latex b' = None"
    by blast
  from b'(1) have n1: "walk_step (init []) ?N 0 = Some (Inr (Emit b' 27))" unfolding se .
  from b'(2) have n2: "b_content_latex b' = ''abc''" unfolding sc c1 .
  from b(1) b2 b3 have p: "\<exists>b. walk_step (init []) ?P 0 = Some (Inr (Emit b 57))
        \<and> b_content_latex b = ''abc'' \<and> b_proof_latex b = Some ''xyz''" by blast
  from n1 n2 b'(3) have n: "\<exists>b. walk_step (init []) ?N 0 = Some (Inr (Emit b 27))
        \<and> b_content_latex b = ''abc'' \<and> b_proof_latex b = None" by blast
  from e1 p e2 n show ?thesis by blast
qed

text \<open>
  C9. For every text and every registry, \<open>parse_text\<close> returns a list of blocks: the loops
  end and no exception is raised. Every turn of the walk returns, and when it goes on it goes
  on at an offset that is greater than the one it started from and not past the end of the
  text. When the registry in use finds no opening marker in the text (comments removed), the
  list is empty. When no closing marker brings the depth back to 0, the environment is the
  rest of the text.
\<close>

theorem parse_text_returns:
  "(\<exists>blocks c'. parse_text (init c) text auto_detect_envs = Some (Inr (blocks, init c')))
   \<and> (\<exists>s. walk_step (init c) text pos = Some (Inr s) \<and> advances pos (length text) s)
   \<and> (parse_text (init c) text auto_detect_envs = Some (Inr (blocks, p'))
        \<and> rx_search True (env_pattern p') (remove_comments text) 0 = None \<longrightarrow> blocks = [])
   \<and> (balance (env_markers (rstrip_star env_type)) 1 0 (drop start_pos text) start_pos = None \<longrightarrow>
        extract_environment text start_pos env_type =
          Some (Inr (drop start_pos text, length text)))"
proof (intro conjI impI)
  show "\<exists>blocks c'. parse_text (init c) text auto_detect_envs = Some (Inr (blocks, init c'))"
    using parse_text_total [of "\<lambda>b. True" c "text" auto_detect_envs] by auto
  show "\<exists>s. walk_step (init c) text pos = Some (Inr s) \<and> advances pos (length text) s"
    using walk_step_total [of c "text" pos] by auto
  show "extract_environment text start_pos env_type =
          Some (Inr (drop start_pos text, length text))"
    if "balance (env_markers (rstrip_star env_type)) 1 0 (drop start_pos text) start_pos = None"
    using that by (simp add: extract_environment_balanced balanced_block_def)
  assume a: "parse_text (init c) text auto_detect_envs = Some (Inr (blocks, p'))
        \<and> rx_search True (env_pattern p') (remove_comments text) 0 = None"
  then have "read_statement p' (remove_comments text) 0 = Some (Inr None)"
    by (simp add: read_statement_def)
  then have w: "walk p' (remove_comments text) 0 [] = Some (Inr [])" by (rule walk_stop)
  from a obtain q where "walk q (remove_comments text) 0 [] = Some (Inr blocks)" "q = p'"
    by (auto simp: parse_text_def Let_def split: if_splits sum.splits option.splits)
  with w show "blocks = []" by simp
qed

theorem parse_text_returns_witness:
  "parse_text (init []) ''abc'' True = Some (Inr ([], init []))
   \<and> rx_search True (env_pattern (init [])) (remove_comments ''abc'') 0 = None
   \<and> balance (env_markers (rstrip_star ''lem'')) 1 0 (drop 12 (begin_marker ''lem*'' @ ''abc'')) 12 = None
   \<and> extract_environment (begin_marker ''lem*'' @ ''abc'') 12 ''lem'' = Some (Inr (''abc'', 15))"
proof -
  have h1: "parse_text (init []) ''abc'' True = Some (Inr ([], init []))" by code_simp
  have h2: "rx_search True (env_pattern (init [])) (remove_comments ''abc'') 0 = None"
    by code_simp
  have h3: "balance (env_markers (rstrip_star ''lem'')) 1 0
              (drop 12 (begin_marker ''lem*'' @ ''abc'')) 12 = None" by code_simp
  from parse_text_returns [of "[]" "''abc''" True 0 "[]" "init []"] h1 h2
  have "[] = ([] :: block list)" by blast
  from parse_text_returns [of _ "begin_marker ''lem*'' @ ''abc''" _ _ _ _ "''lem''" 12] h3
  have "extract_environment (begin_marker ''lem*'' @ ''abc'') 12 ''lem'' =
        Some (Inr (drop 12 (begin_marker ''lem*'' @ ''abc''), length (begin_marker ''lem*'' @ ''abc'')))"
    by blast
  then have "extract_environment (begin_marker ''lem*'' @ ''abc'') 12 ''lem'' = Some (Inr (''abc'', 15))"
    by (simp add: begin_marker_def)
  with h1 h2 h3 show ?thesis by blast
qed

text \<open>
  C7. The first loop of \<open>detect_custom_environments\<close> appends a captured name without
  looking it up in the list it builds; the second loop does look it up. A name declared
  twice in the direct form is returned twice.
\<close>

theorem detect_custom_environments_duplicates:
  "detect_custom_environments
     (bsl # ''newtheorem{foo}{Foo}'' @ bsl # ''newtheorem{foo}{Bar}'') = Inr [''foo'', ''foo'']"
  by code_simp

text \<open>
  C6. \<open>normalize_env_type\<close> lower-cases the raw name and strips its trailing stars. If
  the result is an alias, the kind of the alias is returned, and every alias maps to a
  canonical kind; else, if it is a canonical name, it is returned as it is; else the first of
  these tests that holds decides, in this order: it holds the fragment \<open>th\<close> or \<open>teo\<close>
  (theorem), \<open>def\<close> (definition), \<open>lem\<close> (lemma), \<open>prop\<close> (proposition), \<open>cor\<close>
  (corollary); else the lower-cased, star-stripped name is returned. The case of the letters
  and a trailing star do not change the result. A name that holds both \<open>def\<close> and \<open>th\<close> is
  a theorem, by the order of the tests.
\<close>

theorem normalize_env_type_priority:
  "normalize_env_type raw =
     (let n = rstrip_star (lower raw) in
      case map_of ENVIRONMENT_VARIANTS n of
        Some kind \<Rightarrow> kind
      | None \<Rightarrow>
          if n \<in> set MATH_ENVIRONMENTS then n
          else if has_fragment ''th'' n \<or> has_fragment ''teo'' n then ''theorem''
          else if has_fragment ''def'' n then ''definition''
          else if has_fragment ''lem'' n then ''lemma''
          else if has_fragment ''prop'' n then ''proposition''
          else if has_fragment ''cor'' n then ''corollary''
          else n)
   \<and> list_all (\<lambda>(alias, kind). kind \<in> set MATH_ENVIRONMENTS) ENVIRONMENT_VARIANTS
   \<and> normalize_env_type (lower raw) = normalize_env_type raw
   \<and> normalize_env_type (raw @ ''*'') = normalize_env_type raw
   \<and> normalize_env_type ''mydefthm'' = ''theorem''
   \<and> normalize_env_type ''Axiom*'' = ''axiom''"
proof (intro conjI)
  show "normalize_env_type raw =
     (let n = rstrip_star (lower raw) in
      case map_of ENVIRONMENT_VARIANTS n of
        Some kind \<Rightarrow> kind
      | None \<Rightarrow>
          if n \<in> set MATH_ENVIRONMENTS then n
          else if has_fragment ''th'' n \<or> has_fragment ''teo'' n then ''theorem''
          else if has_fragment ''def'' n then ''definition''
          else if has_fragment ''lem'' n then ''lemma''
          else if has_fragment ''prop'' n then ''proposition''
          else if has_fragment ''cor'' n then ''corollary''
          else n)"
    unfolding normalize_env_type_def contains_iff ..
  show "list_all (\<lambda>(alias, kind). kind \<in> set MATH_ENVIRONMENTS) ENVIRONMENT_VARIANTS"
    by (simp add: ENVIRONMENT_VARIANTS_def MATH_ENVIRONMENTS_def)
  show "normalize_env_type (lower raw) = normalize_env_type raw"
    by (simp add: normalize_env_type_def lower_idem)
  show "normalize_env_type (raw @ ''*'') = normalize_env_type raw"
    using rstrip_star_star [of "lower raw"]
    by (simp add: normalize_env_type_def lower_def lower_star)
  show "normalize_env_type ''mydefthm'' = ''theorem''" by code_simp
  show "normalize_env_type ''Axiom*'' = ''axiom''" by code_simp
qed

text \<open>
  C8, as the code has it. When the detected list of custom names of a document is not
  empty, \<open>parse_text\<close> with detection rebuilds the registry from the base names, the
  variants and those names only, before the walk: the result is the same on every parser,
  whatever it parsed before. When the list is empty the registry the parser holds is used
  as it is, and a call without detection leaves the parser as it was.
\<close>

theorem registry_rebuilt_when_detected:
  "(detect_custom_environments (remove_comments b) = Inr cs \<and> cs \<noteq> [] \<longrightarrow>
      parse_text p b True = parse_text q b True
    \<and> parse_text p b True = parse_text (init cs) b False)
   \<and> (detect_custom_environments (remove_comments b) = Inr [] \<longrightarrow>
        parse_text p b True = parse_text p b False)
   \<and> (parse_text p b False = Some (Inr (blocks, p')) \<longrightarrow> p' = p)"
  by (auto simp: parse_text_def Let_def split: option.splits sum.splits)

theorem registry_rebuilt_when_detected_witness:
  "detect_custom_environments
       (remove_comments (bsl # ''newtheorem{foo}{Foo}'' @ begin_marker ''foo'' @ ''abc''
          @ end_marker ''foo'')) = Inr [''foo'']
   \<and> [''foo''] \<noteq> []
   \<and> parse_text (init [''bar''])
        (bsl # ''newtheorem{foo}{Foo}'' @ begin_marker ''foo'' @ ''abc'' @ end_marker ''foo'') True =
      parse_text (init [])
        (bsl # ''newtheorem{foo}{Foo}'' @ begin_marker ''foo'' @ ''abc'' @ end_marker ''foo'') True
   \<and> detect_custom_environments (remove_comments (begin_marker ''foo'' @ ''abc'' @ end_marker ''foo''))
       = Inr []
   \<and> parse_text (init [''foo'']) (begin_marker ''foo'' @ ''abc'' @ end_marker ''foo'') True =
     parse_text (init [''foo'']) (begin_marker ''foo'' @ ''abc'' @ end_marker ''foo'') False
   \<and> parse_text (init [''foo'']) (begin_marker ''foo'' @ ''abc'' @ end_marker ''foo'') False =
     Some (Inr ([\<lparr>b_type = ''foo'', b_label = None, b_title = None, b_content_latex = ''abc'',
                   b_proof_latex = None, b_references = None\<rparr>], init [''foo'']))"
proof -
  let ?B = "bsl # ''newtheorem{foo}{Foo}'' @ begin_marker ''foo'' @ ''abc'' @ end_marker ''foo''"
  let ?B' = "begin_marker ''foo'' @ ''abc'' @ end_marker ''foo''"
  let ?K = "\<lparr>b_type = ''foo'', b_label = None, b_title = None, b_content_latex = ''abc'',
                   b_proof_latex = None, b_references = None\<rparr>"
  have h1: "detect_custom_environments (remove_comments ?B) = Inr [''foo'']" by code_simp
  have h2: "[''foo''] \<noteq> ([] :: string list)" by simp
  have h3: "detect_custom_environments (remove_comments ?B') = Inr []" by code_simp
  have h4: "parse_text (init [''foo'']) ?B' False = Some (Inr ([?K], init [''foo'']))"
    by code_simp
  from registry_rebuilt_when_detected [of ?B "[''foo'']" "init [''bar'']" "init []"] h1 h2
  have c1: "parse_text (init [''bar'']) ?B True = parse_text (init []) ?B True" by blast
  from registry_rebuilt_when_detected [of ?B' "[]" "init [''foo'']" "init []" "[?K]" "init [''foo'']"]
    h3 h4
  have c2: "parse_text (init [''foo'']) ?B' True = parse_text (init [''foo'']) ?B' False"
    by blast
  from h1 h2 h3 h4 c1 c2 show ?thesis by blast
qed

text \<open>
  C8 as stated fails: a document that uses the environment \<open>foo\<close> and declares nothing
  gives no block on a fresh parser, and one block on a parser that has parsed a document
  declaring \<open>foo\<close>.
\<close>

theorem registry_persists_counterexample:
  "parse_text (init []) (begin_marker ''foo'' @ ''abc'' @ end_marker ''foo'') True =
     Some (Inr ([], init []))
   \<and> parse_text (init []) (bsl # ''newtheorem{foo}{Foo}'') True = Some (Inr ([], init [''foo'']))
   \<and> parse_text (init [''foo'']) (begin_marker ''foo'' @ ''abc'' @ end_marker ''foo'') True =
     Some (Inr ([\<lparr>b_type = ''foo'', b_label = None, b_title = None, b_content_latex = ''abc'',
                   b_proof_latex = None, b_references = None\<rparr>], init [''foo'']))"
  by code_simp

text \<open>
  C10. At a match of the opening pattern, group 1 is the raw name, and the title is read
  from what follows the closing brace of the opening marker (with or without a star): no
  bracket, or a bracket that is never closed, gives no title; \<open>[]\<close> gives no title;
  a bracket that holds only whitespace gives the empty string; any other bracket gives its
  text, stripped. That title is the title of the statement read and of the block emitted.
\<close>

theorem title_from_brackets:
  "rx_search True (env_pattern (init c)) text pos = Some m \<longrightarrow>
     (\<exists>raw star. group m 1 = Some raw \<and> (star = [] \<or> star = ''*'')
        \<and> starts_with_ci (begin_marker (raw @ star)) (drop (m_start m) text)
        \<and> title_of m =
            (case bracketed (drop (m_start m + length (begin_marker (raw @ star))) text) of
               None \<Rightarrow> None
             | Some t \<Rightarrow>
                 if t = [] then None
                 else if list_all isspace t then Some []
                 else Some (strip t)))
     \<and> (\<forall>st. read_statement (init c) text pos = Some (Inr (Some st)) \<longrightarrow>
            s_title st = title_of m)
     \<and> (\<forall>b n. walk_step (init c) text pos = Some (Inr (Emit b n)) \<longrightarrow>
            b_title b = title_of m)"
proof (intro impI conjI allI)
  assume m: "rx_search True (env_pattern (init c)) text pos = Some m"
  from env_pattern_search [OF m] obtain raw star where
    r: "group m 1 = Some raw" "star = [] \<or> star = ''*''"
       "starts_with_ci (begin_marker (raw @ star)) (drop (m_start m) text)"
       "group m 2 = bracketed (drop (m_start m + length (begin_marker (raw @ star))) text)"
    by blast
  have "title_of m =
            (case bracketed (drop (m_start m + length (begin_marker (raw @ star))) text) of
               None \<Rightarrow> None
             | Some t \<Rightarrow>
                 if t = [] then None
                 else if list_all isspace t then Some []
                 else Some (strip t))"
    unfolding title_of_bracketed r(4) ..
  with r(1-3) show "\<exists>raw star. group m 1 = Some raw \<and> (star = [] \<or> star = ''*'')
        \<and> starts_with_ci (begin_marker (raw @ star)) (drop (m_start m) text)
        \<and> title_of m =
            (case bracketed (drop (m_start m + length (begin_marker (raw @ star))) text) of
               None \<Rightarrow> None
             | Some t \<Rightarrow>
                 if t = [] then None
                 else if list_all isspace t then Some []
                 else Some (strip t))"
    by blast
  have st: "s_title st = title_of m"
    if "read_statement (init c) text pos = Some (Inr (Some st))" for st
    using read_statement_cases [of c "text" pos] that m by auto
  show "s_title st = title_of m"
    if "read_statement (init c) text pos = Some (Inr (Some st))" for st
    using that by (rule st)
  show "b_title b = title_of m"
    if w: "walk_step (init c) text pos = Some (Inr (Emit b n))" for b n
  proof -
    from read_statement_cases [of c "text" pos] m obtain st where
      rs: "read_statement (init c) text pos = Some (Inr (Some st))" by auto
    from walk_step_statement [OF rs] w have "step_of text st = Emit b n" by simp
    from step_of_title [OF this] st [OF rs] show ?thesis by simp
  qed
qed

theorem title_from_brackets_witness:
  "rx_search True (env_pattern (init []))
       (begin_marker ''lemma'' @ ''[  ]abc'' @ end_marker ''lemma'') 0 =
     Some \<lparr>m_start = 0, m_end = 17, m_groups = [(2, ''  ''), (1, ''lemma'')]\<rparr>
   \<and> walk_step (init []) (begin_marker ''lemma'' @ ''[  ]abc'' @ end_marker ''lemma'') 0 =
     Some (Inr (Emit \<lparr>b_type = ''lemma'', b_label = None, b_title = Some [],
                       b_content_latex = ''abc'', b_proof_latex = None, b_references = None\<rparr> 31))
   \<and> rx_search True (env_pattern (init []))
       (begin_marker ''lemma'' @ ''[]abc'' @ end_marker ''lemma'') 0 =
     Some \<lparr>m_start = 0, m_end = 15, m_groups = [(2, []), (1, ''lemma'')]\<rparr>
   \<and> walk_step (init []) (begin_marker ''lemma'' @ ''[]abc'' @ end_marker ''lemma'') 0 =
     Some (Inr (Emit \<lparr>b_type = ''lemma'', b_label = None, b_title = None,
                       b_content_latex = ''abc'', b_proof_latex = None, b_references = None\<rparr> 29))
   \<and> rx_search True (env_pattern (init []))
       (begin_marker ''Lemma*'' @ ''[ T ]abc'' @ end_marker ''lemma'') 0 =
     Some \<lparr>m_start = 0, m_end = 19, m_groups = [(2, '' T ''), (1, ''Lemma'')]\<rparr>
   \<and> walk_step (init []) (begin_marker ''Lemma*'' @ ''[ T ]abc'' @ end_marker ''lemma'') 0 =
     Some (Inr (Emit \<lparr>b_type = ''lemma'', b_label = None, b_title = Some ''T'',
                       b_content_latex = ''abc'', b_proof_latex = None, b_references = None\<rparr> 33))
   \<and> Some [] = title_of \<lparr>m_start = 0, m_end = 17, m_groups = [(2, ''  ''), (1, ''lemma'')]\<rparr>
   \<and> None = title_of \<lparr>m_start = 0, m_end = 15, m_groups = [(2, []), (1, ''lemma'')]\<rparr>
   \<and> Some ''T'' = title_of \<lparr>m_start = 0, m_end = 19, m_groups = [(2, '' T ''), (1, ''Lemma'')]\<rparr>"
proof -
  let ?T1 = "begin_marker ''lemma'' @ ''[  ]abc'' @ end_marker ''lemma''"
  let ?M1 = "\<lparr>m_start = 0, m_end = 17, m_groups = [(2, ''  ''), (1, ''lemma'')]\<rparr>"
  let ?B1 = "\<lparr>b_type = ''lemma'', b_label = None, b_title = Some [],
              b_content_latex = ''abc'', b_proof_latex = None, b_references = None\<rparr>"
  let ?T2 = "begin_marker ''lemma'' @ ''[]abc'' @ end_marker ''lemma''"
  let ?M2 = "\<lparr>m_start = 0, m_end = 15, m_groups = [(2, []), (1, ''lemma'')]\<rparr>"
  let ?B2 = "\<lparr>b_type = ''lemma'', b_label = None, b_title = None,
              b_content_latex = ''abc'', b_proof_latex = None, b_references = None\<rparr>"
  let ?T3 = "begin_marker ''Lemma*'' @ ''[ T ]abc'' @ end_marker ''lemma''"
  let ?M3 = "\<lparr>m_start = 0, m_end = 19, m_groups = [(2, '' T ''), (1, ''Lemma'')]\<rparr>"
  let ?B3 = "\<lparr>b_type = ''lemma'', b_label = None, b_title = Some ''T'',
              b_content_latex = ''abc'', b_proof_latex = None, b_references = None\<rparr>"
  have s1: "rx_search True (env_pattern (init [])) ?T1 0 = Some ?M1" by code_simp
  have w1: "walk_step (init []) ?T1 0 = Some (Inr (Emit ?B1 31))" by code_simp
  have s2: "rx_search True (env_pattern (init [])) ?T2 0 = Some ?M2" by code_simp
  have w2: "walk_step (init []) ?T2 0 = Some (Inr (Emit ?B2 29))" by code_simp
  have s3: "rx_search True (env_pattern (init [])) ?T3 0 = Some ?M3" by code_simp
  have w3: "walk_step (init []) ?T3 0 = Some (Inr (Emit ?B3 33))" by code_simp
  from title_from_brackets [of "[]" ?T1 0 ?M1] s1 w1 have c1: "Some [] = title_of ?M1" by force
  from title_from_brackets [of "[]" ?T2 0 ?M2] s2 w2 have c2: "None = title_of ?M2" by force
  from title_from_brackets [of "[]" ?T3 0 ?M3] s3 w3 have c3: "Some ''T'' = title_of ?M3" by force
  from s1 w1 s2 w2 s3 w3 c1 c2 c3 show ?thesis by blast
qed

end
